theory Spec2Isabelle
  imports Main "HOL-Library.Word"
begin

section \<open>Instruction records (PipelineSim.h)\<close>

text \<open>
  The stage enumeration \<^verbatim>\<open>PS_PIPELINE_STATE\<close>, in the order of the header.
\<close>

datatype PS_PIPELINE_STATE = PS_INVALID | PS_IF | PS_ID | PS_EX | PS_WB | PS_COMPLETED

text \<open>
  \<^verbatim>\<open>TCHAR\<close> is the character type of the build; it is taken here as the 16-bit
  \<^verbatim>\<open>wchar_t\<close> of a UNICODE build. \<^verbatim>\<open>DWORD\<close> is \<^verbatim>\<open>unsigned __int32\<close>
  (CommonDef.h), so the counters of the simulator wrap around at \<open>2 ^ 32\<close>.
  \<^verbatim>\<open>size_t\<close> is taken as 64 bits wide.
\<close>

type_synonym TCHAR = "16 word"
type_synonym INSTRUCTION_T = TCHAR
type_synonym DWORD = "32 word"
type_synonym size_t = "64 word"

definition INVALID_INSTRUCTION :: INSTRUCTION_T where
  "INVALID_INSTRUCTION = 0"

text \<open>The character \<^verbatim>\<open>'-'\<close> has code 45.\<close>

definition NOOP_INSTRUCTION :: INSTRUCTION_T where
  "NOOP_INSTRUCTION = 45"

record CInstructionData =
  m_Instruction :: INSTRUCTION_T
  m_psState :: PS_PIPELINE_STATE
  m_bDataDependent :: bool

text \<open>
  The constructors: \<^verbatim>\<open>CInstructionData(instruction, bDataDependent)\<close> starts in
  \<^verbatim>\<open>PS_INVALID\<close>; \<^verbatim>\<open>CInstructionData(instruction, psState, bDataDependent)\<close> takes the
  stage; \<^verbatim>\<open>CNoopInstruction()\<close> and \<^verbatim>\<open>CNoopInstruction(psState)\<close> build bubbles.
\<close>

definition CInstructionData_new :: "INSTRUCTION_T \<Rightarrow> bool \<Rightarrow> CInstructionData" where
  "CInstructionData_new instruction bDataDependent =
     \<lparr>m_Instruction = instruction, m_psState = PS_INVALID, m_bDataDependent = bDataDependent\<rparr>"

definition CInstructionData_staged ::
  "INSTRUCTION_T \<Rightarrow> PS_PIPELINE_STATE \<Rightarrow> bool \<Rightarrow> CInstructionData" where
  "CInstructionData_staged instruction psState bDataDependent =
     \<lparr>m_Instruction = instruction, m_psState = psState, m_bDataDependent = bDataDependent\<rparr>"

definition CNoopInstruction :: CInstructionData where
  "CNoopInstruction = CInstructionData_new NOOP_INSTRUCTION False"

definition CNoopInstruction_staged :: "PS_PIPELINE_STATE \<Rightarrow> CInstructionData" where
  "CNoopInstruction_staged psState = CInstructionData_staged NOOP_INSTRUCTION psState False"

definition GetInstruction :: "CInstructionData \<Rightarrow> INSTRUCTION_T" where
  "GetInstruction r = m_Instruction r"

definition GetState :: "CInstructionData \<Rightarrow> PS_PIPELINE_STATE" where
  "GetState r = m_psState r"

definition SetState :: "PS_PIPELINE_STATE \<Rightarrow> CInstructionData \<Rightarrow> CInstructionData" where
  "SetState psSet r = r\<lparr>m_psState := psSet\<rparr>"

definition IsDataDependent :: "CInstructionData \<Rightarrow> bool" where
  "IsDataDependent r = m_bDataDependent r"

definition SetDataDependent :: "bool \<Rightarrow> CInstructionData \<Rightarrow> CInstructionData" where
  "SetDataDependent bSet r = r\<lparr>m_bDataDependent := bSet\<rparr>"

definition IsNOOP :: "CInstructionData \<Rightarrow> bool" where
  "IsNOOP r = (m_Instruction r = NOOP_INSTRUCTION)"

section \<open>The pipeline simulator (PipelineSim.cpp)\<close>

text \<open>
  \<^verbatim>\<open>m_lstInstructionPipeline\<close> is a \<^verbatim>\<open>std::list\<close>: its front is the head of the HOL
  list, its back the last element. \<^verbatim>\<open>m_queInstructions\<close> is a \<^verbatim>\<open>std::queue\<close>: its
  front is the head, \<^verbatim>\<open>push\<close> appends at the end.
\<close>

record CPipelineSim =
  m_dwCycle :: DWORD
  m_dwStallCtr :: DWORD
  m_dwCompletedCtr :: DWORD
  m_dwMaxPipelineDepth :: DWORD
  m_lstInstructionPipeline :: "CInstructionData list"
  m_queInstructions :: "CInstructionData list"

definition CONCURRENT_INSTRUCTION_LIMIT :: DWORD where
  "CONCURRENT_INSTRUCTION_LIMIT = 4"

definition CPipelineSim_new :: CPipelineSim where
  "CPipelineSim_new =
     \<lparr>m_dwCycle = 0, m_dwStallCtr = 0, m_dwCompletedCtr = 0,
      m_dwMaxPipelineDepth = CONCURRENT_INSTRUCTION_LIMIT,
      m_lstInstructionPipeline = [], m_queInstructions = []\<rparr>"

definition GetCycle :: "CPipelineSim \<Rightarrow> DWORD" where
  "GetCycle sim = m_dwCycle sim"

definition GetStallCount :: "CPipelineSim \<Rightarrow> DWORD" where
  "GetStallCount sim = m_dwStallCtr sim"

definition GetCompletionCount :: "CPipelineSim \<Rightarrow> DWORD" where
  "GetCompletionCount sim = m_dwCompletedCtr sim"

text \<open>
  \<^verbatim>\<open>InsertInstruction\<close> pushes the record on the queue and returns the queue's size.
\<close>

definition InsertInstruction :: "CInstructionData \<Rightarrow> CPipelineSim \<Rightarrow> size_t \<times> CPipelineSim" where
  "InsertInstruction instruction sim =
     (let sim' = sim\<lparr>m_queInstructions := m_queInstructions sim @ [instruction]\<rparr>
      in (of_nat (length (m_queInstructions sim')), sim'))"

text \<open>
  The admission step of \<^verbatim>\<open>ProcessNextCycle\<close>: when the list holds at most
  \<^verbatim>\<open>m_dwMaxPipelineDepth\<close> records, the front of the queue, or a fresh bubble when the
  queue is empty, is pushed at the front of the list. The first component is
  \<^verbatim>\<open>bReturn\<close> after the step.
\<close>

definition admission :: "CPipelineSim \<Rightarrow> bool \<times> CPipelineSim" where
  "admission sim =
     (if length (m_lstInstructionPipeline sim) \<le> unat (m_dwMaxPipelineDepth sim) then
        (case m_queInstructions sim of
           instruction # rest \<Rightarrow>
             (True, sim\<lparr>m_queInstructions := rest,
                        m_lstInstructionPipeline := instruction # m_lstInstructionPipeline sim\<rparr>)
         | [] \<Rightarrow>
             (False, sim\<lparr>m_lstInstructionPipeline :=
                            CNoopInstruction # m_lstInstructionPipeline sim\<rparr>))
      else (False, sim))"

text \<open>
  The variables of the stage-advance loop: the locals \<^verbatim>\<open>bReturn\<close> and
  \<^verbatim>\<open>bStalled\<close>, and the two counters the loop increments.
\<close>

record loop_vars =
  bReturn :: bool
  bStalled :: bool
  dwStallCtr :: DWORD
  dwCompletedCtr :: DWORD

text \<open>
  The body of the loop, the \<^verbatim>\<open>switch\<close> on the stage of the record \<^verbatim>\<open>*itr\<close>. It
  returns the records that stand at the place of \<^verbatim>\<open>*itr\<close> afterwards, oldest first
  (nearest the back first), and the updated variables.

  In the \<^verbatim>\<open>PS_ID\<close> case with the flag set, the bubble is inserted before
  \<^verbatim>\<open>itr.base()\<close>, the forward position one step nearer the back than \<^verbatim>\<open>*itr\<close>: it
  lands between the stalled record and the next older one. A reverse iterator
  designates the element before its base, so after the insertion \<^verbatim>\<open>itr->\<close> reads
  the bubble, and the test \<^verbatim>\<open>itr->IsNOOP() == false\<close> that closes the case is made
  on the bubble. In the other branch it is made on the record itself.
\<close>

definition loop_body :: "CInstructionData \<Rightarrow> loop_vars \<Rightarrow> CInstructionData list \<times> loop_vars" where
  "loop_body r v =
     (case GetState r of
        PS_INVALID \<Rightarrow>
          ([SetState PS_IF r], if IsNOOP r = False then v\<lparr>bReturn := True\<rparr> else v)
      | PS_IF \<Rightarrow>
          ([SetState PS_ID r], if IsNOOP r = False then v\<lparr>bReturn := True\<rparr> else v)
      | PS_ID \<Rightarrow>
          (if IsDataDependent r then
             (let r' = SetDataDependent False r;
                  NOOP = CNoopInstruction_staged PS_EX;
                  v' = v\<lparr>bStalled := True, dwStallCtr := dwStallCtr v + 1\<rparr>
              in ([NOOP, r'], if IsNOOP NOOP = False then v'\<lparr>bReturn := True\<rparr> else v'))
           else
             ([SetState PS_EX r], if IsNOOP r = False then v\<lparr>bReturn := True\<rparr> else v))
      | PS_EX \<Rightarrow>
          ([SetState PS_WB r], if IsNOOP r = False then v\<lparr>bReturn := True\<rparr> else v)
      | PS_WB \<Rightarrow>
          ([SetState PS_COMPLETED r],
           if IsNOOP r = False then v\<lparr>dwCompletedCtr := dwCompletedCtr v + 1\<rparr> else v)
      | PS_COMPLETED \<Rightarrow> ([r], v))"

text \<open>
  The loop itself, over the records from \<^verbatim>\<open>rbegin()\<close> to \<^verbatim>\<open>rend()\<close> (the list
  reversed, oldest first); it stops when \<^verbatim>\<open>bStalled\<close> is set and leaves the
  remaining, newer records as they are.
\<close>

fun stage_loop :: "CInstructionData list \<Rightarrow> loop_vars \<Rightarrow> CInstructionData list \<times> loop_vars" where
  "stage_loop [] v = ([], v)"
| "stage_loop (r # rs) v =
     (if bStalled v = False then
        (case loop_body r v of
           (out, v') \<Rightarrow> (case stage_loop rs v' of (rest, v'') \<Rightarrow> (out @ rest, v'')))
      else (r # rs, v))"

text \<open>
  The retirement step reads \<^verbatim>\<open>back()\<close> of the list, which is undefined on an
  empty list: the model returns \<open>None\<close> there. Otherwise the back is removed when
  its stage is \<^verbatim>\<open>PS_COMPLETED\<close>.
\<close>

definition retirement :: "CInstructionData list \<Rightarrow> CInstructionData list option" where
  "retirement lst =
     (if lst = [] then None
      else Some (if GetState (last lst) = PS_COMPLETED then butlast lst else lst))"

text \<open>
  \<^verbatim>\<open>ProcessNextCycle\<close>: the cycle counter, the admission step, the stage-advance
  loop, the retirement step; the result is \<^verbatim>\<open>bReturn\<close> and the new state.
\<close>

definition ProcessNextCycle :: "CPipelineSim \<Rightarrow> (bool \<times> CPipelineSim) option" where
  "ProcessNextCycle sim =
     (case admission (sim\<lparr>m_dwCycle := m_dwCycle sim + 1\<rparr>) of
        (b, sim1) \<Rightarrow>
          (case stage_loop (rev (m_lstInstructionPipeline sim1))
                  \<lparr>bReturn = b, bStalled = False,
                   dwStallCtr = m_dwStallCtr sim1, dwCompletedCtr = m_dwCompletedCtr sim1\<rparr> of
             (rl, v) \<Rightarrow>
               (case retirement (rev rl) of
                  None \<Rightarrow> None
                | Some lst \<Rightarrow>
                    Some (bReturn v,
                      sim1\<lparr>m_dwStallCtr := dwStallCtr v, m_dwCompletedCtr := dwCompletedCtr v,
                           m_lstInstructionPipeline := lst\<rparr>))))"

text \<open>
  A number of consecutive calls of \<^verbatim>\<open>ProcessNextCycle\<close>, with the values they return.
\<close>

fun run_cycles :: "nat \<Rightarrow> CPipelineSim \<Rightarrow> (bool list \<times> CPipelineSim) option" where
  "run_cycles 0 sim = Some ([], sim)"
| "run_cycles (Suc n) sim =
     (case ProcessNextCycle sim of
        None \<Rightarrow> None
      | Some (b, sim') \<Rightarrow>
          (case run_cycles n sim' of
             None \<Rightarrow> None
           | Some (bs, sim'') \<Rightarrow> Some (b # bs, sim'')))"

text \<open>
  The driver's loop (\<^verbatim>\<open>ExecutePipelineSimulation\<close>): it calls \<^verbatim>\<open>ProcessNextCycle\<close>
  until a call returns false. \<open>None\<close> stands for a loop that never ends (or a
  call that is undefined).
\<close>

partial_function (option) cycle_loop :: "CPipelineSim \<Rightarrow> CPipelineSim option" where
  "cycle_loop sim =
     (case ProcessNextCycle sim of
        None \<Rightarrow> None
      | Some (bMoreInstructions, sim') \<Rightarrow>
          if bMoreInstructions then cycle_loop sim' else Some sim')"

declare cycle_loop.simps [code]

section \<open>The dependency graph (DependencyGraph.h, DependencyGraph.cpp)\<close>

type_synonym NODE_ID_T = TCHAR

definition INVALID_NODE_ID :: NODE_ID_T where
  "INVALID_NODE_ID = 0"

record CDirectedEdgeData =
  m_idDestNode :: NODE_ID_T
  m_iWeight :: int

definition CDirectedEdgeData_new :: "NODE_ID_T \<Rightarrow> int \<Rightarrow> CDirectedEdgeData" where
  "CDirectedEdgeData_new idToNode iWeight = \<lparr>m_idDestNode = idToNode, m_iWeight = iWeight\<rparr>"

definition GetDestNodeID :: "CDirectedEdgeData \<Rightarrow> NODE_ID_T" where
  "GetDestNodeID e = m_idDestNode e"

definition GetWeight :: "CDirectedEdgeData \<Rightarrow> int" where
  "GetWeight e = m_iWeight e"

text \<open>\<^verbatim>\<open>operator<\<close> of the edge data: the destination alone is compared.\<close>

definition edge_less :: "CDirectedEdgeData \<Rightarrow> CDirectedEdgeData \<Rightarrow> bool" where
  "edge_less lhs rhs = (m_idDestNode lhs < m_idDestNode rhs)"

text \<open>
  \<^verbatim>\<open>std::set<CDirectedEdgeData>\<close> is kept as the list of its elements in the
  order of \<^verbatim>\<open>operator<\<close>. Both \<^verbatim>\<open>insert\<close> and \<^verbatim>\<open>find\<close> go to the first element
  that is not less than the argument (the lower bound); when the argument is not
  less than that element either, the two are equivalent: \<^verbatim>\<open>find\<close> returns the
  element, and \<^verbatim>\<open>insert\<close> leaves the set as it is and returns false in the second
  component of its result.
\<close>

fun set_insert :: "CDirectedEdgeData \<Rightarrow> CDirectedEdgeData list \<Rightarrow> CDirectedEdgeData list \<times> bool" where
  "set_insert e [] = ([e], True)"
| "set_insert e (x # xs) =
     (if edge_less x e then (case set_insert e xs of (xs', b) \<Rightarrow> (x # xs', b))
      else if edge_less e x then (e # x # xs, True)
      else (x # xs, False))"

fun set_find :: "CDirectedEdgeData \<Rightarrow> CDirectedEdgeData list \<Rightarrow> CDirectedEdgeData option" where
  "set_find e [] = None"
| "set_find e (x # xs) =
     (if edge_less x e then set_find e xs
      else if edge_less e x then None
      else Some x)"

record CGraphNode =
  m_ID :: NODE_ID_T
  m_setEdges :: "CDirectedEdgeData list"

definition CGraphNode_new :: CGraphNode where
  "CGraphNode_new = \<lparr>m_ID = INVALID_NODE_ID, m_setEdges = []\<rparr>"

definition SetNodeID :: "NODE_ID_T \<Rightarrow> CGraphNode \<Rightarrow> CGraphNode" where
  "SetNodeID idSet n = n\<lparr>m_ID := idSet\<rparr>"

definition GetNodeID :: "CGraphNode \<Rightarrow> NODE_ID_T" where
  "GetNodeID n = m_ID n"

definition IsValid :: "CGraphNode \<Rightarrow> bool" where
  "IsValid n = (m_ID n \<noteq> INVALID_NODE_ID)"

text \<open>\<^verbatim>\<open>CGraphNode::AddEdge\<close>, both overloads.\<close>

definition CGraphNode_AddEdge_data :: "CDirectedEdgeData \<Rightarrow> CGraphNode \<Rightarrow> bool \<times> CGraphNode" where
  "CGraphNode_AddEdge_data edge n =
     (if IsValid n then
        (case set_insert edge (m_setEdges n) of
           (edges', second) \<Rightarrow> (if second then True else False, n\<lparr>m_setEdges := edges'\<rparr>))
      else (False, n))"

definition CGraphNode_AddEdge :: "NODE_ID_T \<Rightarrow> int \<Rightarrow> CGraphNode \<Rightarrow> bool \<times> CGraphNode" where
  "CGraphNode_AddEdge idToNode iWeight n =
     CGraphNode_AddEdge_data (CDirectedEdgeData_new idToNode iWeight) n"

definition CGraphNode_GetNumEdges :: "CGraphNode \<Rightarrow> size_t" where
  "CGraphNode_GetNumEdges n = (if IsValid n then of_nat (length (m_setEdges n)) else 0)"

definition HasEdge :: "NODE_ID_T \<Rightarrow> CGraphNode \<Rightarrow> bool" where
  "HasEdge idToNode n = (set_find (CDirectedEdgeData_new idToNode 0) (m_setEdges n) \<noteq> None)"

definition INVALID_NODE_INDEX :: size_t where
  "INVALID_NODE_INDEX = - 1"

record CDependencyGraph =
  m_nMaxNodes :: size_t
  m_nNumNodes :: size_t
  m_vNodes :: "CGraphNode list"

definition DEFAULT_MAX_NODES :: size_t where
  "DEFAULT_MAX_NODES = 10"

definition CDependencyGraph_sized :: "size_t \<Rightarrow> CDependencyGraph" where
  "CDependencyGraph_sized nMaxNodes =
     \<lparr>m_nMaxNodes = nMaxNodes, m_nNumNodes = 0,
      m_vNodes = replicate (unat nMaxNodes) CGraphNode_new\<rparr>"

definition CDependencyGraph_new :: CDependencyGraph where
  "CDependencyGraph_new = CDependencyGraph_sized DEFAULT_MAX_NODES"

text \<open>
  \<^verbatim>\<open>IsValidNodeID\<close>: the letters \<^verbatim>\<open>'a'..'y'\<close> (codes 97 to 121) and \<^verbatim>\<open>'A'..'Y'\<close>
  (codes 65 to 89).
\<close>

definition IsValidNodeID :: "NODE_ID_T \<Rightarrow> bool" where
  "IsValidNodeID idNode =
     (if (idNode \<ge> 97 \<and> idNode \<le> 121) \<or> (idNode \<ge> 65 \<and> idNode \<le> 89) then True else False)"

definition IsValidNodeIndex :: "CDependencyGraph \<Rightarrow> size_t \<Rightarrow> bool" where
  "IsValidNodeIndex g nIndex = (nIndex < m_nMaxNodes g)"

text \<open>\<^verbatim>\<open>std::tolower\<close> in the default locale: the capitals move to the small letters.\<close>

definition tolower_T :: "TCHAR \<Rightarrow> TCHAR" where
  "tolower_T c = (if 65 \<le> c \<and> c \<le> 90 then c + 32 else c)"

text \<open>
  \<^verbatim>\<open>GetNodeIndex\<close>: the difference of two characters is an \<^verbatim>\<open>int\<close>, converted to
  \<^verbatim>\<open>size_t\<close>.
\<close>

definition GetNodeIndex :: "NODE_ID_T \<Rightarrow> size_t" where
  "GetNodeIndex idNode =
     (if IsValidNodeID idNode then of_int (uint (tolower_T idNode) - 97)
      else INVALID_NODE_INDEX)"

text \<open>
  The vector is read at an index below \<^verbatim>\<open>m_nMaxNodes\<close> only; the constructors make
  it that long, which is the invariant \<open>vector_sized\<close>.
\<close>

definition vector_sized :: "CDependencyGraph \<Rightarrow> bool" where
  "vector_sized g = (length (m_vNodes g) = unat (m_nMaxNodes g))"

definition AddNode :: "NODE_ID_T \<Rightarrow> CDependencyGraph \<Rightarrow> bool \<times> CDependencyGraph" where
  "AddNode idNode g =
     (let nNodeIndex = GetNodeIndex idNode in
      if IsValidNodeIndex g nNodeIndex then
        (if IsValid (m_vNodes g ! unat nNodeIndex) = False then
           (True, g\<lparr>m_vNodes := (m_vNodes g)[unat nNodeIndex :=
                                   SetNodeID idNode (m_vNodes g ! unat nNodeIndex)],
                    m_nNumNodes := m_nNumNodes g + 1\<rparr>)
         else (False, g))
      else (False, g))"

definition AddEdge :: "NODE_ID_T \<Rightarrow> NODE_ID_T \<Rightarrow> int \<Rightarrow> CDependencyGraph \<Rightarrow> bool \<times> CDependencyGraph" where
  "AddEdge idFromNode idToNode iWeight g =
     (if IsValidNodeID idFromNode \<and> IsValidNodeID idToNode then
        (let nIndex = GetNodeIndex idFromNode in
         if IsValidNodeIndex g nIndex then
           (case CGraphNode_AddEdge idToNode iWeight (m_vNodes g ! unat nIndex) of
              (bAdded, n') \<Rightarrow> (bAdded, g\<lparr>m_vNodes := (m_vNodes g)[unat nIndex := n']\<rparr>))
         else (False, g))
      else (False, g))"

definition GetNumNodes :: "CDependencyGraph \<Rightarrow> size_t" where
  "GetNumNodes g = m_nNumNodes g"

text \<open>\<^verbatim>\<open>GetNumEdges\<close>: the loop over the indices below \<^verbatim>\<open>m_nMaxNodes\<close>.\<close>

definition GetNumEdges :: "CDependencyGraph \<Rightarrow> size_t" where
  "GetNumEdges g =
     foldl (\<lambda>nNumEdges i. nNumEdges + CGraphNode_GetNumEdges (m_vNodes g ! i)) 0
       [0 ..< unat (m_nMaxNodes g)]"

definition HasNode :: "NODE_ID_T \<Rightarrow> CDependencyGraph \<Rightarrow> bool" where
  "HasNode idNode g =
     (let nIndex = GetNodeIndex idNode in
      if IsValidNodeIndex g nIndex then IsValid (m_vNodes g ! unat nIndex) else False)"

section \<open>The driver (Pipeline\_Main.cpp)\<close>

definition MAX_INSTRUCTIONS :: size_t where
  "MAX_INSTRUCTIONS = 25"

text \<open>
  \<^verbatim>\<open>CalculateNumberOfStallsRequired\<close>: the loop over the vector of nodes.
\<close>

definition CalculateNumberOfStallsRequired :: "CDependencyGraph \<Rightarrow> int" where
  "CalculateNumberOfStallsRequired dag =
     foldl (\<lambda>iNumStalls it.
              if IsValid it then
                (let idNode = GetNodeID it in
                 if HasEdge (idNode - 1) it then iNumStalls + 1 else iNumStalls)
              else iNumStalls) 0 (m_vNodes dag)"

text \<open>
  \<^verbatim>\<open>ExecutePipelineSimulation\<close>: the first loop queues one record for each valid
  node, flagged when the node has an edge to the identity one below its own;
  then the cycles run until \<^verbatim>\<open>ProcessNextCycle\<close> returns false. What is written to
  \<^verbatim>\<open>tcout\<close> is left out. The function returns \<^verbatim>\<open>bReturn\<close>, which stays false.
\<close>

definition queue_instructions :: "CDependencyGraph \<Rightarrow> CPipelineSim \<Rightarrow> CPipelineSim" where
  "queue_instructions dag sim =
     foldl (\<lambda>sim it.
              if IsValid it then
                (let idNode = GetNodeID it;
                     bDataDependent = (if HasEdge (idNode - 1) it then True else False)
                 in snd (InsertInstruction (CInstructionData_new idNode bDataDependent) sim))
              else sim) sim (m_vNodes dag)"

definition ExecutePipelineSimulation ::
  "CPipelineSim \<Rightarrow> CDependencyGraph \<Rightarrow> (bool \<times> CPipelineSim) option" where
  "ExecutePipelineSimulation sim dag =
     (case cycle_loop (queue_instructions dag sim) of
        None \<Rightarrow> None
      | Some sim' \<Rightarrow> Some (False, sim'))"

text \<open>
  What \<^verbatim>\<open>LoadData\<close> does to the graph once the file is parsed: \<^verbatim>\<open>AddNode\<close> for
  each of the first \<^verbatim>\<open>MAX_INSTRUCTIONS\<close> tokens of the first line, then \<^verbatim>\<open>AddEdge\<close>
  for each pair, with the difference of the two characters as weight.
\<close>

definition LoadData_calls ::
  "TCHAR list \<Rightarrow> (TCHAR \<times> TCHAR) list \<Rightarrow> CDependencyGraph \<Rightarrow> CDependencyGraph" where
  "LoadData_calls tokens pairs dag =
     foldl (\<lambda>g (idSrcNode, idDestNode).
              snd (AddEdge idSrcNode idDestNode (uint idSrcNode - uint idDestNode) g))
       (foldl (\<lambda>g c. snd (AddNode c g)) dag (take (unat MAX_INSTRUCTIONS) tokens))
       pairs"

section \<open>Calls and runs of the simulator\<close>

text \<open>
  A caller of the simulator makes a sequence of calls of the two mutating
  methods; \<open>run_calls\<close> is the state they leave, \<open>None\<close> when a call is
  undefined.
\<close>

datatype sim_call = Call_InsertInstruction CInstructionData | Call_ProcessNextCycle

fun run_calls :: "sim_call list \<Rightarrow> CPipelineSim \<Rightarrow> CPipelineSim option" where
  "run_calls [] sim = Some sim"
| "run_calls (Call_InsertInstruction instruction # cs) sim =
     run_calls cs (snd (InsertInstruction instruction sim))"
| "run_calls (Call_ProcessNextCycle # cs) sim =
     (case ProcessNextCycle sim of
        None \<Rightarrow> None
      | Some (b, sim') \<Rightarrow> run_calls cs sim')"

text \<open>Queueing a list of records, one \<^verbatim>\<open>InsertInstruction\<close> call each.\<close>

definition queue_all :: "CInstructionData list \<Rightarrow> CPipelineSim \<Rightarrow> CPipelineSim" where
  "queue_all instrs sim = foldl (\<lambda>s i. snd (InsertInstruction i s)) sim instrs"

text \<open>
  An instruction as the driver queues it: in stage \<^verbatim>\<open>PS_INVALID\<close>, as the
  two-argument constructor leaves it, and not a bubble.
\<close>

definition fresh_instruction :: "CInstructionData \<Rightarrow> bool" where
  "fresh_instruction r = (GetState r = PS_INVALID \<and> IsNOOP r = False)"

section \<open>Vocabulary for one pass of the stage-advance loop\<close>

text \<open>
  \<open>bump\<close> is the stage change of a record that the loop visits and does
  not stall; \<open>stalls\<close> holds of a record that the loop stalls when it reaches
  it; \<open>productive\<close> holds of a record whose visit sets \<^verbatim>\<open>bReturn\<close>;
  \<open>completes\<close> of one whose visit increments the completion counter.
\<close>

definition bump :: "CInstructionData \<Rightarrow> CInstructionData" where
  "bump r =
     (case GetState r of
        PS_INVALID \<Rightarrow> SetState PS_IF r
      | PS_IF \<Rightarrow> SetState PS_ID r
      | PS_ID \<Rightarrow> SetState PS_EX r
      | PS_EX \<Rightarrow> SetState PS_WB r
      | PS_WB \<Rightarrow> SetState PS_COMPLETED r
      | PS_COMPLETED \<Rightarrow> r)"

definition stalls :: "CInstructionData \<Rightarrow> bool" where
  "stalls r = (GetState r = PS_ID \<and> IsDataDependent r)"

definition productive :: "CInstructionData \<Rightarrow> bool" where
  "productive r =
     (IsNOOP r = False \<and>
      (GetState r = PS_INVALID \<or> GetState r = PS_IF \<or> GetState r = PS_ID \<or> GetState r = PS_EX))"

definition completes :: "CInstructionData \<Rightarrow> bool" where
  "completes r = (IsNOOP r = False \<and> GetState r = PS_WB)"

text \<open>
  The records from the stalled one on, oldest first, after the stall: the bubble
  in Execute, the stalled record with its flag cleared, the newer records as
  they were.
\<close>

definition stall_insert :: "CInstructionData list \<Rightarrow> CInstructionData list" where
  "stall_insert rest =
     (case rest of [] \<Rightarrow> []
      | r # newer \<Rightarrow> CNoopInstruction_staged PS_EX # SetDataDependent False r # newer)"

text \<open>
  The records the loop visits before it stalls (all of them when none stalls),
  oldest first, and the in-flight list (front first) after the loop.
\<close>

definition visited :: "CInstructionData list \<Rightarrow> CInstructionData list" where
  "visited L = takeWhile (\<lambda>x. \<not> stalls x) (rev L)"

definition pass_list :: "CInstructionData list \<Rightarrow> CInstructionData list" where
  "pass_list L =
     rev (map bump (takeWhile (\<lambda>x. \<not> stalls x) (rev L)) @
          stall_insert (dropWhile (\<lambda>x. \<not> stalls x) (rev L)))"

section \<open>The in-order invariant and the count of remaining cycles\<close>

text \<open>
  \<open>weight\<close> is the number of productive stage changes a record still has before
  it. \<open>pending_flags\<close> counts the records, queued or in flight, whose
  dependency flag is still set. \<open>remaining_cycles\<close> is the number of calls
  that will still return true: one for each pending flag, and the distance of the
  newest instruction from Write Back.
\<close>

definition weight :: "CInstructionData \<Rightarrow> nat" where
  "weight r =
     (case GetState r of
        PS_INVALID \<Rightarrow> 4 | PS_IF \<Rightarrow> 3 | PS_ID \<Rightarrow> 2 | PS_EX \<Rightarrow> 1 | PS_WB \<Rightarrow> 0 | PS_COMPLETED \<Rightarrow> 0)"

definition pending_flags :: "CPipelineSim \<Rightarrow> nat" where
  "pending_flags sim =
     length (filter IsDataDependent (m_queInstructions sim @ m_lstInstructionPipeline sim))"

definition remaining_cycles :: "CPipelineSim \<Rightarrow> nat" where
  "remaining_cycles sim =
     pending_flags sim +
     (if m_queInstructions sim \<noteq> [] then
        length (m_queInstructions sim) +
          (case m_lstInstructionPipeline sim of [] \<Rightarrow> 3 | r # _ \<Rightarrow> weight r)
      else
        (case filter (\<lambda>r. IsNOOP r = False) (m_lstInstructionPipeline sim) of
           [] \<Rightarrow> 0 | r # _ \<Rightarrow> weight r))"

text \<open>
  A list is \<open>guarded\<close> when every flagged record stands directly in front of a
  record that is not a bubble (its predecessor in program order).
\<close>

fun guarded :: "CInstructionData list \<Rightarrow> bool" where
  "guarded [] = True"
| "guarded [x] = (IsDataDependent x = False)"
| "guarded (x # y # zs) = ((IsDataDependent x \<longrightarrow> IsNOOP y = False) \<and> guarded (y # zs))"

text \<open>
  The stages of the in-flight list between two calls, front first: a prefix of
  Fetch, Decode, Execute, Write Back; or, after a cycle that stalled, the five
  stages from \<^verbatim>\<open>PS_INVALID\<close> to Write Back, the record in Decode being the one
  just stalled.
\<close>

definition stage_shape :: "CInstructionData list \<Rightarrow> bool" where
  "stage_shape L =
     (map GetState L = [] \<or> map GetState L = [PS_IF] \<or> map GetState L = [PS_IF, PS_ID] \<or>
      map GetState L = [PS_IF, PS_ID, PS_EX] \<or> map GetState L = [PS_IF, PS_ID, PS_EX, PS_WB] \<or>
      (map GetState L = [PS_INVALID, PS_IF, PS_ID, PS_EX, PS_WB] \<and>
       IsDataDependent (L ! 2) = False \<and> IsNOOP (L ! 2) = False))"

text \<open>
  The invariant of a run whose queue held fresh instructions, the first of them
  not flagged.
\<close>

definition in_order :: "CPipelineSim \<Rightarrow> bool" where
  "in_order sim =
     (m_dwMaxPipelineDepth sim = 4 \<and>
      stage_shape (m_lstInstructionPipeline sim) \<and>
      guarded (m_lstInstructionPipeline sim) \<and>
      list_all (\<lambda>r. IsDataDependent r \<longrightarrow>
                  IsNOOP r = False \<and> (GetState r = PS_INVALID \<or> GetState r = PS_IF \<or> GetState r = PS_ID))
        (m_lstInstructionPipeline sim) \<and>
      list_all (\<lambda>r. GetState r = PS_INVALID \<and> IsNOOP r = False) (m_queInstructions sim) \<and>
      (case m_queInstructions sim of
         [] \<Rightarrow> True
       | h # _ \<Rightarrow> IsDataDependent h \<longrightarrow>
            (case m_lstInstructionPipeline sim of [] \<Rightarrow> False | r # _ \<Rightarrow> IsNOOP r = False)))"

text \<open>
  What one call does to a state that satisfies the invariant: it keeps the
  invariant, every stall consumes one pending flag, and the call returns true
  exactly when cycles remain, of which it uses one.
\<close>

definition step_ok :: "CPipelineSim \<Rightarrow> bool" where
  "step_ok sim =
     (case ProcessNextCycle sim of
        None \<Rightarrow> False
      | Some (b, sim') \<Rightarrow>
          in_order sim' \<and>
          m_dwStallCtr sim' + of_nat (pending_flags sim') = m_dwStallCtr sim + of_nat (pending_flags sim) \<and>
          pending_flags sim' \<le> pending_flags sim \<and>
          b = (0 < remaining_cycles sim) \<and>
          remaining_cycles sim' = remaining_cycles sim - 1)"

section \<open>Measures for termination and for the stalls\<close>

text \<open>
  \<open>work\<close> is the weight of a record that is not a bubble; \<open>potential\<close> bounds
  the number of calls that can still return true, whatever the records are.
  \<open>flagged\<close> counts the records of a list whose dependency flag is set.
\<close>

definition work :: "CInstructionData \<Rightarrow> nat" where
  "work r = (if IsNOOP r then 0 else weight r)"

definition potential :: "CPipelineSim \<Rightarrow> nat" where
  "potential sim =
     sum_list (map (\<lambda>r. Suc (work r)) (m_queInstructions sim)) +
     sum_list (map work (m_lstInstructionPipeline sim))"

definition flagged :: "CInstructionData list \<Rightarrow> nat" where
  "flagged xs = length (filter IsDataDependent xs)"

section \<open>Well-formed graphs and the instructions the driver queues\<close>

text \<open>
  A graph is well formed when its vector has the length of its capacity, every
  valid node carries an identity of the alphabet and stands in the slot of that
  identity, every edge leads to an identity of the alphabet that is a node of
  the graph, and the vacant slots have no edges. All but the condition that the
  destination of an edge is a node hold of every graph built with \<^verbatim>\<open>AddNode\<close>
  and \<^verbatim>\<open>AddEdge\<close>; that condition says that every dependency pair of the input
  names a listed instruction as the one depended on.
\<close>

definition node_ok :: "CDependencyGraph \<Rightarrow> nat \<Rightarrow> bool" where
  "node_ok g i =
     (if IsValid (m_vNodes g ! i) then
        IsValidNodeID (m_ID (m_vNodes g ! i)) \<and>
        unat (GetNodeIndex (m_ID (m_vNodes g ! i))) = i \<and>
        list_all (\<lambda>e. IsValidNodeID (m_idDestNode e) \<and> HasNode (m_idDestNode e) g)
          (m_setEdges (m_vNodes g ! i))
      else m_setEdges (m_vNodes g ! i) = [])"

definition well_formed :: "CDependencyGraph \<Rightarrow> bool" where
  "well_formed g = (vector_sized g \<and> list_all (node_ok g) [0 ..< length (m_vNodes g)])"

text \<open>
  The record \<^verbatim>\<open>ExecutePipelineSimulation\<close> queues for a valid node, and the list
  of the records it queues for a graph.
\<close>

definition node_instruction :: "CGraphNode \<Rightarrow> CInstructionData" where
  "node_instruction it =
     CInstructionData_new (GetNodeID it) (if HasEdge (GetNodeID it - 1) it then True else False)"

definition dag_instructions :: "CDependencyGraph \<Rightarrow> CInstructionData list" where
  "dag_instructions dag = map node_instruction (filter IsValid (m_vNodes dag))"

text \<open>The graph after the first loop of \<^verbatim>\<open>LoadData\<close>.\<close>

definition nodes_loaded :: "TCHAR list \<Rightarrow> CDependencyGraph \<Rightarrow> CDependencyGraph" where
  "nodes_loaded tokens dag =
     foldl (\<lambda>g c. snd (AddNode c g)) dag (take (unat MAX_INSTRUCTIONS) tokens)"

section \<open>Example states and graphs\<close>

text \<open>
  The simulator after three cycles on the instructions \<^verbatim>\<open>a b c d\<close> with
  \<^verbatim>\<open>b\<close> flagged (\<^verbatim>\<open>b\<close> has reached Decode), and after four cycles on the single
  instruction \<^verbatim>\<open>a\<close> (which has reached Write Back).
\<close>

definition stall_example :: CPipelineSim where
  "stall_example =
     \<lparr>m_dwCycle = 3, m_dwStallCtr = 0, m_dwCompletedCtr = 0, m_dwMaxPipelineDepth = 4,
      m_lstInstructionPipeline =
        [CInstructionData_staged 99 PS_IF False, CInstructionData_staged 98 PS_ID True,
         CInstructionData_staged 97 PS_EX False],
      m_queInstructions = [CInstructionData_new 100 False]\<rparr>"

definition write_back_example :: CPipelineSim where
  "write_back_example =
     \<lparr>m_dwCycle = 4, m_dwStallCtr = 0, m_dwCompletedCtr = 0, m_dwMaxPipelineDepth = 4,
      m_lstInstructionPipeline =
        [CNoopInstruction_staged PS_IF, CNoopInstruction_staged PS_ID,
         CNoopInstruction_staged PS_EX, CInstructionData_staged 97 PS_WB False],
      m_queInstructions = []\<rparr>"

text \<open>
  The graph of the instructions \<^verbatim>\<open>a b c d e f\<close> with the pairs \<^verbatim>\<open>b a\<close> and
  \<^verbatim>\<open>e d\<close>; and the graph of the instructions \<^verbatim>\<open>b c\<close> with the pairs \<^verbatim>\<open>b a\<close> and
  \<^verbatim>\<open>c b\<close>, where \<^verbatim>\<open>a\<close> is no instruction of the input.
\<close>

definition textbook_example :: CDependencyGraph where
  "textbook_example =
     LoadData_calls [97, 98, 99, 100, 101, 102] [(98, 97), (101, 100)]
       (CDependencyGraph_sized MAX_INSTRUCTIONS)"

definition dangling_example :: CDependencyGraph where
  "dangling_example =
     LoadData_calls [98, 99] [(98, 97), (99, 98)] (CDependencyGraph_sized MAX_INSTRUCTIONS)"

section \<open>Basic facts\<close>

lemmas instr_defs = GetInstruction_def GetState_def SetState_def IsDataDependent_def
  SetDataDependent_def IsNOOP_def CNoopInstruction_def CNoopInstruction_staged_def
  CInstructionData_new_def CInstructionData_staged_def

lemmas pnc_defs = ProcessNextCycle_def admission_def loop_body_def retirement_def Let_def

lemmas inv_defs = step_ok_def in_order_def stage_shape_def pending_flags_def
  remaining_cycles_def weight_def

lemma GetState_SetState [simp]: "GetState (SetState st r) = st"
  and IsNOOP_SetState [simp]: "IsNOOP (SetState st r) = IsNOOP r"
  and IsDataDependent_SetState [simp]: "IsDataDependent (SetState st r) = IsDataDependent r"
  and GetState_SetDataDependent [simp]: "GetState (SetDataDependent f r) = GetState r"
  and IsNOOP_SetDataDependent [simp]: "IsNOOP (SetDataDependent f r) = IsNOOP r"
  and IsDataDependent_SetDataDependent [simp]: "IsDataDependent (SetDataDependent f r) = f"
  by (simp_all add: instr_defs)

lemma CNoopInstruction_simps [simp]:
  "GetState CNoopInstruction = PS_INVALID" "IsNOOP CNoopInstruction"
  "IsDataDependent CNoopInstruction = False"
  "GetState (CNoopInstruction_staged st) = st" "IsNOOP (CNoopInstruction_staged st)"
  "IsDataDependent (CNoopInstruction_staged st) = False"
  by (simp_all add: instr_defs)

section \<open>The stage-advance loop in closed form\<close>

lemma loop_body_plain:
  "\<not> stalls r \<Longrightarrow>
   loop_body r v =
     ([bump r],
      v\<lparr>bReturn := bReturn v \<or> productive r,
        dwCompletedCtr := dwCompletedCtr v + (if completes r then 1 else 0)\<rparr>)"
  by (cases "GetState r")
     (auto simp: loop_body_def bump_def stalls_def productive_def completes_def)

lemma loop_body_stall:
  "stalls r \<Longrightarrow>
   loop_body r v =
     ([CNoopInstruction_staged PS_EX, SetDataDependent False r],
      v\<lparr>bStalled := True, dwStallCtr := dwStallCtr v + 1\<rparr>)"
  by (simp add: loop_body_def stalls_def Let_def IsNOOP_def CNoopInstruction_staged_def
        CInstructionData_staged_def)

lemma stage_loop_char:
  "bStalled v = False \<Longrightarrow>
   stage_loop rs v =
     (map bump (takeWhile (\<lambda>x. \<not> stalls x) rs) @ stall_insert (dropWhile (\<lambda>x. \<not> stalls x) rs),
      v\<lparr>bReturn := bReturn v \<or> list_ex productive (takeWhile (\<lambda>x. \<not> stalls x) rs),
        bStalled := list_ex stalls rs,
        dwStallCtr := dwStallCtr v + (if list_ex stalls rs then 1 else 0),
        dwCompletedCtr := dwCompletedCtr v +
           of_nat (length (filter completes (takeWhile (\<lambda>x. \<not> stalls x) rs)))\<rparr>)"
proof (induction rs arbitrary: v)
  case Nil
  then show ?case by (simp add: stall_insert_def)
next
  case (Cons r rs)
  show ?case
  proof (cases "stalls r")
    case True
    have "stage_loop rs (v\<lparr>bStalled := True, dwStallCtr := dwStallCtr v + 1\<rparr>) =
            (rs, v\<lparr>bStalled := True, dwStallCtr := dwStallCtr v + 1\<rparr>)"
      by (cases rs) simp_all
    with True Cons.prems show ?thesis
      by (simp add: loop_body_stall stall_insert_def)
  next
    case False
    let ?v' = "v\<lparr>bReturn := bReturn v \<or> productive r,
                  dwCompletedCtr := dwCompletedCtr v + (if completes r then 1 else 0)\<rparr>"
    have "bStalled ?v' = False" using Cons.prems by simp
    from Cons.IH[OF this] False Cons.prems show ?thesis
      by (simp add: loop_body_plain)
  qed
qed

lemma stall_insert_Nil_iff [simp]: "stall_insert rest = [] \<longleftrightarrow> rest = []"
  by (cases rest) (simp_all add: stall_insert_def)

lemma pass_list_Nil_iff [simp]: "pass_list L = [] \<longleftrightarrow> L = []"
  by (cases "rev L") (auto simp: pass_list_def)

lemma ProcessNextCycle_char:
  assumes "admission (sim\<lparr>m_dwCycle := m_dwCycle sim + 1\<rparr>) = (b0, sim1)"
  shows "ProcessNextCycle sim =
     (case retirement (pass_list (m_lstInstructionPipeline sim1)) of
        None \<Rightarrow> None
      | Some lst \<Rightarrow>
          Some (b0 \<or> list_ex productive (visited (m_lstInstructionPipeline sim1)),
            sim1\<lparr>m_dwStallCtr := m_dwStallCtr sim1 +
                     (if list_ex stalls (m_lstInstructionPipeline sim1) then 1 else 0),
                 m_dwCompletedCtr := m_dwCompletedCtr sim1 +
                     of_nat (length (filter completes (visited (m_lstInstructionPipeline sim1)))),
                 m_lstInstructionPipeline := lst\<rparr>))"
  using assms
  by (auto simp: ProcessNextCycle_def stage_loop_char pass_list_def visited_def list_ex_iff
        split: option.splits)

lemma admission_list_nonempty:
  "admission sim = (b0, sim1) \<Longrightarrow> m_lstInstructionPipeline sim1 \<noteq> []"
  by (auto simp: admission_def split: if_splits list.splits)

lemma admission_fields:
  "admission sim = (b0, sim1) \<Longrightarrow>
     m_dwStallCtr sim1 = m_dwStallCtr sim \<and> m_dwCycle sim1 = m_dwCycle sim \<and>
     m_dwCompletedCtr sim1 = m_dwCompletedCtr sim \<and>
     m_dwMaxPipelineDepth sim1 = m_dwMaxPipelineDepth sim"
  by (auto simp: admission_def split: if_splits list.splits)

lemma ProcessNextCycle_total: "\<exists>b sim'. ProcessNextCycle sim = Some (b, sim')"
proof -
  obtain b0 sim1 where adm: "admission (sim\<lparr>m_dwCycle := m_dwCycle sim + 1\<rparr>) = (b0, sim1)"
    by (cases "admission (sim\<lparr>m_dwCycle := m_dwCycle sim + 1\<rparr>)")
  from admission_list_nonempty[OF adm] show ?thesis
    by (simp add: ProcessNextCycle_char[OF adm] retirement_def)
qed

lemma run_cycles_total: "\<exists>bs t. run_cycles n sim = Some (bs, t)"
proof (induction n arbitrary: sim)
  case 0
  show ?case by simp
next
  case (Suc n)
  obtain b sim' where "ProcessNextCycle sim = Some (b, sim')"
    using ProcessNextCycle_total by blast
  moreover obtain bs t where "run_cycles n sim' = Some (bs, t)" using Suc by blast
  ultimately show ?case by simp
qed

section \<open>The invariant is kept\<close>

lemma step_empty:
  assumes "in_order sim" "m_lstInstructionPipeline sim = []"
  shows "step_ok sim"
  using assms
  by (cases "m_queInstructions sim")
     (auto simp: inv_defs pnc_defs split: list.splits)

lemma step_1:
  assumes "in_order sim" "m_lstInstructionPipeline sim = [x1]" "GetState x1 = PS_IF"
  shows "step_ok sim"
  using assms
  by (cases "m_queInstructions sim")
     (auto simp: inv_defs pnc_defs split: list.splits)

lemma step_2:
  assumes "in_order sim" "m_lstInstructionPipeline sim = [x1, x2]"
    "GetState x1 = PS_IF" "GetState x2 = PS_ID"
  shows "step_ok sim"
  using assms
  by (cases "m_queInstructions sim")
     (auto simp: inv_defs pnc_defs split: list.splits)

lemma step_3:
  assumes "in_order sim" "m_lstInstructionPipeline sim = [x1, x2, x3]"
    "GetState x1 = PS_IF" "GetState x2 = PS_ID" "GetState x3 = PS_EX"
  shows "step_ok sim"
  using assms
  by (cases "m_queInstructions sim"; cases "IsDataDependent x2")
     (auto simp: inv_defs pnc_defs split: list.splits)

lemma step_4:
  assumes "in_order sim" "m_lstInstructionPipeline sim = [x1, x2, x3, x4]"
    "GetState x1 = PS_IF" "GetState x2 = PS_ID" "GetState x3 = PS_EX" "GetState x4 = PS_WB"
  shows "step_ok sim"
  using assms
  by (cases "m_queInstructions sim"; cases "IsDataDependent x2")
     (auto simp: inv_defs pnc_defs split: list.splits)

lemma step_5:
  assumes "in_order sim" "m_lstInstructionPipeline sim = [x0, x1, x2, x3, x4]"
    "GetState x0 = PS_INVALID"
    "GetState x1 = PS_IF" "GetState x2 = PS_ID" "GetState x3 = PS_EX" "GetState x4 = PS_WB"
  shows "step_ok sim"
  using assms
  by (cases "m_queInstructions sim")
     (auto simp: inv_defs pnc_defs split: list.splits)

lemma in_order_step: "in_order sim \<Longrightarrow> step_ok sim"
proof -
  assume inv: "in_order sim"
  then have "stage_shape (m_lstInstructionPipeline sim)" by (simp add: in_order_def)
  then consider
      "m_lstInstructionPipeline sim = []"
    | x1 where "m_lstInstructionPipeline sim = [x1]" "GetState x1 = PS_IF"
    | x1 x2 where "m_lstInstructionPipeline sim = [x1, x2]" "GetState x1 = PS_IF" "GetState x2 = PS_ID"
    | x1 x2 x3 where "m_lstInstructionPipeline sim = [x1, x2, x3]"
        "GetState x1 = PS_IF" "GetState x2 = PS_ID" "GetState x3 = PS_EX"
    | x1 x2 x3 x4 where "m_lstInstructionPipeline sim = [x1, x2, x3, x4]"
        "GetState x1 = PS_IF" "GetState x2 = PS_ID" "GetState x3 = PS_EX" "GetState x4 = PS_WB"
    | x0 x1 x2 x3 x4 where "m_lstInstructionPipeline sim = [x0, x1, x2, x3, x4]"
        "GetState x0 = PS_INVALID"
        "GetState x1 = PS_IF" "GetState x2 = PS_ID" "GetState x3 = PS_EX" "GetState x4 = PS_WB"
    unfolding stage_shape_def by (auto simp: map_eq_Cons_conv)
  then show ?thesis
    using inv step_empty step_1 step_2 step_3 step_4 step_5 by cases blast+
qed

lemma in_order_stepE:
  assumes "in_order sim"
  obtains b sim' where "ProcessNextCycle sim = Some (b, sim')" "in_order sim'"
    "m_dwStallCtr sim' + of_nat (pending_flags sim') = m_dwStallCtr sim + of_nat (pending_flags sim)"
    "pending_flags sim' \<le> pending_flags sim"
    "b = (0 < remaining_cycles sim)" "remaining_cycles sim' = remaining_cycles sim - 1"
  using in_order_step[OF assms] unfolding step_ok_def
  by (auto split: option.splits)

lemma pending_flags_le_remaining: "pending_flags sim \<le> remaining_cycles sim"
  by (simp add: remaining_cycles_def)

lemma in_order_run:
  "in_order sim \<Longrightarrow> remaining_cycles sim = n \<Longrightarrow>
   \<exists>t. run_cycles (Suc n) sim = Some (replicate n True @ [False], t) \<and>
       cycle_loop sim = Some t \<and>
       m_dwStallCtr t = m_dwStallCtr sim + of_nat (pending_flags sim)"
proof (induction n arbitrary: sim)
  case 0
  from 0(1) obtain b sim' where st: "ProcessNextCycle sim = Some (b, sim')"
    and ctr: "m_dwStallCtr sim' + of_nat (pending_flags sim') = m_dwStallCtr sim + of_nat (pending_flags sim)"
    and le: "pending_flags sim' \<le> pending_flags sim"
    and b: "b = (0 < remaining_cycles sim)"
    by (rule in_order_stepE)
  have "pending_flags sim = 0" using pending_flags_le_remaining[of sim] 0(2) by simp
  with le have "pending_flags sim' = 0" by simp
  with ctr have "m_dwStallCtr sim' = m_dwStallCtr sim + of_nat (pending_flags sim)" by simp
  moreover have "b = False" using b 0(2) by simp
  ultimately show ?case using st
    by (subst cycle_loop.simps) simp
next
  case (Suc n)
  from Suc.prems(1) obtain b sim' where st: "ProcessNextCycle sim = Some (b, sim')"
    and inv: "in_order sim'"
    and ctr: "m_dwStallCtr sim' + of_nat (pending_flags sim') = m_dwStallCtr sim + of_nat (pending_flags sim)"
    and b: "b = (0 < remaining_cycles sim)"
    and r: "remaining_cycles sim' = remaining_cycles sim - 1"
    by (rule in_order_stepE)
  have r': "remaining_cycles sim' = n" using r Suc.prems(2) by simp
  from Suc.IH[OF inv r'] obtain t where
    run: "run_cycles (Suc n) sim' = Some (replicate n True @ [False], t)"
    and loop: "cycle_loop sim' = Some t"
    and fin: "m_dwStallCtr t = m_dwStallCtr sim' + of_nat (pending_flags sim')"
    by blast
  have bt: "b = True" using b Suc.prems(2) by simp
  have "run_cycles (Suc (Suc n)) sim = Some (replicate (Suc n) True @ [False], t)"
    using st bt run by simp
  moreover have "cycle_loop sim = Some t"
    using st bt loop by (subst cycle_loop.simps) simp
  moreover have "m_dwStallCtr t = m_dwStallCtr sim + of_nat (pending_flags sim)"
    using fin ctr by simp
  ultimately show ?case by blast
qed

lemma in_order_run_stalls:
  "in_order sim \<Longrightarrow> run_cycles n sim = Some (bs, t) \<Longrightarrow>
   in_order t \<and> pending_flags t \<le> pending_flags sim \<and>
   m_dwStallCtr t + of_nat (pending_flags t) = m_dwStallCtr sim + of_nat (pending_flags sim)"
proof (induction n arbitrary: sim bs)
  case 0
  then show ?case by simp
next
  case (Suc n)
  from Suc.prems(1) obtain b sim' where st: "ProcessNextCycle sim = Some (b, sim')"
    and inv: "in_order sim'"
    and ctr: "m_dwStallCtr sim' + of_nat (pending_flags sim') = m_dwStallCtr sim + of_nat (pending_flags sim)"
    and le: "pending_flags sim' \<le> pending_flags sim"
    by (rule in_order_stepE)
  from Suc.prems(2) st obtain bs' where "run_cycles n sim' = Some (bs', t)"
    by (auto split: option.splits)
  from Suc.IH[OF inv this] ctr le show ?case by simp
qed

lemma queue_all_eq:
  "queue_all instrs sim = sim\<lparr>m_queInstructions := m_queInstructions sim @ instrs\<rparr>"
  unfolding queue_all_def
  by (induction instrs arbitrary: sim) (simp_all add: InsertInstruction_def Let_def)

lemma in_order_queued:
  "list_all fresh_instruction instrs \<Longrightarrow> (instrs \<noteq> [] \<Longrightarrow> IsDataDependent (hd instrs) = False) \<Longrightarrow>
   in_order (queue_all instrs CPipelineSim_new)"
  by (cases instrs)
     (auto simp: queue_all_eq in_order_def CPipelineSim_new_def CONCURRENT_INSTRUCTION_LIMIT_def
        stage_shape_def fresh_instruction_def list_all_iff)

lemma remaining_queued:
  "instrs \<noteq> [] \<Longrightarrow>
   remaining_cycles (queue_all instrs CPipelineSim_new) =
     length instrs + 3 + length (filter IsDataDependent instrs)"
  by (simp add: queue_all_eq remaining_cycles_def pending_flags_def CPipelineSim_new_def)

lemma pending_queued:
  "pending_flags (queue_all instrs CPipelineSim_new) = length (filter IsDataDependent instrs)"
  by (simp add: queue_all_eq pending_flags_def CPipelineSim_new_def)

section \<open>A measure that every productive call decreases\<close>

lemma IsNOOP_bump [simp]: "IsNOOP (bump r) = IsNOOP r"
  and IsDataDependent_bump [simp]: "IsDataDependent (bump r) = IsDataDependent r"
  by (cases "GetState r"; simp add: bump_def)+

lemma work_bump: "work (bump x) + (if productive x then 1 else 0) = work x"
  by (cases "GetState x") (auto simp: work_def weight_def bump_def productive_def)

lemma work_bump_list:
  "sum_list (map work (map bump V)) + (if list_ex productive V then 1 else 0)
     \<le> sum_list (map work V)"
proof (induction V)
  case Nil
  show ?case by simp
next
  case (Cons x V)
  from Cons work_bump[of x] show ?case by (auto split: if_splits)
qed

lemma work_stall_insert: "sum_list (map work (stall_insert D)) = sum_list (map work D)"
  by (cases D) (simp_all add: stall_insert_def work_def weight_def)

lemma split_visited:
  "sum_list (map f L) =
     sum_list (map f (takeWhile (\<lambda>x. \<not> stalls x) (rev L))) +
     sum_list (map f (dropWhile (\<lambda>x. \<not> stalls x) (rev L)))"
  for f :: "CInstructionData \<Rightarrow> nat"
proof -
  let ?V = "takeWhile (\<lambda>x. \<not> stalls x) (rev L)"
  let ?D = "dropWhile (\<lambda>x. \<not> stalls x) (rev L)"
  have "sum_list (map f (?V @ ?D)) = sum_list (map f ?V) + sum_list (map f ?D)"
    by (simp only: map_append sum_list.append)
  moreover have "?V @ ?D = rev L" by (rule takeWhile_dropWhile_id)
  moreover have "sum_list (map f (rev L)) = sum_list (map f L)"
    by (simp only: rev_map[symmetric] sum_list_rev)
  ultimately show ?thesis by simp
qed

lemma sum_pass_list:
  "sum_list (map f (pass_list L)) =
     sum_list (map f (map bump (visited L))) +
     sum_list (map f (stall_insert (dropWhile (\<lambda>x. \<not> stalls x) (rev L))))"
  for f :: "CInstructionData \<Rightarrow> nat"
  by (simp add: pass_list_def visited_def rev_map[symmetric])

lemma work_pass_list:
  "sum_list (map work (pass_list L)) + (if list_ex productive (visited L) then 1 else 0)
     \<le> sum_list (map work L)"
  using work_bump_list[of "visited L"]
  by (simp add: sum_pass_list work_stall_insert split_visited[of work L] visited_def)

lemma sum_butlast: "sum_list (map f (butlast xs)) \<le> sum_list (map f xs)"
  for f :: "CInstructionData \<Rightarrow> nat"
  by (induction xs) auto

lemma retirement_sum:
  "retirement lst = Some lst' \<Longrightarrow> sum_list (map f lst') \<le> sum_list (map f lst)"
  for f :: "CInstructionData \<Rightarrow> nat"
  using sum_butlast[of f lst] by (auto simp: retirement_def split: if_splits)

lemma admission_potential:
  "admission sim = (b0, sim1) \<Longrightarrow> potential sim1 + (if b0 then 1 else 0) = potential sim"
  by (auto simp: admission_def potential_def work_def split: if_splits list.splits)

lemma admission_cycle_potential [simp]:
  "potential (sim\<lparr>m_dwCycle := c\<rparr>) = potential sim"
  by (simp add: potential_def)

lemma potential_step:
  assumes "ProcessNextCycle sim = Some (b, sim')"
  shows "potential sim' + (if b then 1 else 0) \<le> potential sim"
proof -
  obtain b0 sim1 where adm: "admission (sim\<lparr>m_dwCycle := m_dwCycle sim + 1\<rparr>) = (b0, sim1)"
    by (cases "admission (sim\<lparr>m_dwCycle := m_dwCycle sim + 1\<rparr>)")
  let ?L = "m_lstInstructionPipeline sim1"
  from assms obtain lst where ret: "retirement (pass_list ?L) = Some lst"
    and b: "b = (b0 \<or> list_ex productive (visited ?L))"
    and q: "m_queInstructions sim' = m_queInstructions sim1"
    and l: "m_lstInstructionPipeline sim' = lst"
    by (auto simp: ProcessNextCycle_char[OF adm] split: option.splits)
  have 1: "potential sim1 + (if b0 then 1 else 0) = potential sim"
    using admission_potential[OF adm] by simp
  have 2: "sum_list (map work lst) \<le> sum_list (map work (pass_list ?L))"
    using retirement_sum[OF ret] .
  have 3: "sum_list (map work (pass_list ?L)) + (if list_ex productive (visited ?L) then 1 else 0)
     \<le> sum_list (map work ?L)" by (rule work_pass_list)
  have "potential sim' + (if list_ex productive (visited ?L) then 1 else 0) \<le> potential sim1"
    using 2 3 q l by (simp add: potential_def)
  with 1 b show ?thesis by (auto split: if_splits)
qed

section \<open>Pending flags, the queue and the stall counter in one call\<close>

lemma flagged_simps [simp]:
  "flagged [] = 0"
  "flagged (x # xs) = (if IsDataDependent x then 1 else 0) + flagged xs"
  "flagged (xs @ ys) = flagged xs + flagged ys"
  "flagged (rev xs) = flagged xs"
  "flagged (map bump xs) = flagged xs"
  by (simp_all add: flagged_def filter_map comp_def rev_filter[symmetric])

lemma dropWhile_stalls_hd:
  "dropWhile (\<lambda>x. \<not> stalls x) R = r # newer \<Longrightarrow> IsDataDependent r"
  using hd_dropWhile[of "\<lambda>x. \<not> stalls x" R] by (simp add: stalls_def)

lemma flagged_stall_insert:
  "flagged (stall_insert (dropWhile (\<lambda>x. \<not> stalls x) R)) + (if list_ex stalls R then 1 else 0)
     = flagged (dropWhile (\<lambda>x. \<not> stalls x) R)"
proof (cases "dropWhile (\<lambda>x. \<not> stalls x) R")
  case Nil
  then have "\<not> list_ex stalls R" by (auto simp: list_ex_iff dropWhile_eq_Nil_conv)
  then show ?thesis unfolding Nil by (simp add: stall_insert_def)
next
  case (Cons r newer)
  then have "list_ex stalls R"
    by (metis dropWhile_eq_Nil_conv list.distinct(1) list_ex_iff)
  with dropWhile_stalls_hd[OF Cons] show ?thesis unfolding Cons by (simp add: stall_insert_def)
qed

lemma flagged_pass_list:
  "flagged (pass_list L) + (if list_ex stalls L then 1 else 0) = flagged L"
proof -
  let ?V = "takeWhile (\<lambda>x. \<not> stalls x) (rev L)"
  let ?D = "dropWhile (\<lambda>x. \<not> stalls x) (rev L)"
  have "?V @ ?D = rev L" by (rule takeWhile_dropWhile_id)
  then have "flagged (?V @ ?D) = flagged (rev L)" by (simp only:)
  then have "flagged ?V + flagged ?D = flagged L" by (simp only: flagged_simps)
  moreover have "list_ex stalls (rev L) = list_ex stalls L" by (simp add: list_ex_iff)
  ultimately show ?thesis
    using flagged_stall_insert[of "rev L"] by (simp add: pass_list_def)
qed

lemma retirement_flagged:
  "retirement lst = Some lst' \<Longrightarrow> flagged lst' \<le> flagged lst"
proof -
  have "flagged (butlast lst) \<le> flagged lst" by (induction lst) auto
  then show "retirement lst = Some lst' \<Longrightarrow> flagged lst' \<le> flagged lst"
    by (auto simp: retirement_def split: if_splits)
qed

lemma admission_flagged:
  "admission sim = (b0, sim1) \<Longrightarrow>
   flagged (m_queInstructions sim1) + flagged (m_lstInstructionPipeline sim1) =
   flagged (m_queInstructions sim) + flagged (m_lstInstructionPipeline sim)"
  by (auto simp: admission_def split: if_splits list.splits)

lemma admission_queue:
  "admission sim = (b0, sim1) \<Longrightarrow>
   m_queInstructions sim1 = m_queInstructions sim \<or>
   m_queInstructions sim1 = tl (m_queInstructions sim)"
  by (auto simp: admission_def split: if_splits list.splits)

lemma pending_flags_flagged:
  "pending_flags sim = flagged (m_queInstructions sim) + flagged (m_lstInstructionPipeline sim)"
  by (simp add: pending_flags_def flagged_def)

lemma unat_plus_if_le:
  "unat (x + (if c then 1 else 0)) \<le> unat x + (if c then 1 else 0)"
  for x :: DWORD
  by (cases c) (simp_all add: unat_word_ariths)

lemma flags_step:
  assumes "ProcessNextCycle sim = Some (b, sim')"
  shows "unat (m_dwStallCtr sim') + pending_flags sim' \<le> unat (m_dwStallCtr sim) + pending_flags sim"
    and "m_queInstructions sim' = m_queInstructions sim \<or>
         m_queInstructions sim' = tl (m_queInstructions sim)"
    and "m_dwStallCtr sim' = m_dwStallCtr sim \<or> m_dwStallCtr sim' = m_dwStallCtr sim + 1"
proof -
  obtain b0 sim1 where adm: "admission (sim\<lparr>m_dwCycle := m_dwCycle sim + 1\<rparr>) = (b0, sim1)"
    by (cases "admission (sim\<lparr>m_dwCycle := m_dwCycle sim + 1\<rparr>)")
  let ?L = "m_lstInstructionPipeline sim1"
  let ?c = "list_ex stalls ?L"
  from assms obtain lst where ret: "retirement (pass_list ?L) = Some lst"
    and q: "m_queInstructions sim' = m_queInstructions sim1"
    and l: "m_lstInstructionPipeline sim' = lst"
    and st: "m_dwStallCtr sim' = m_dwStallCtr sim1 + (if ?c then 1 else 0)"
    by (auto simp: ProcessNextCycle_char[OF adm] split: option.splits)
  have s1: "m_dwStallCtr sim1 = m_dwStallCtr sim"
    using admission_fields[OF adm] by simp
  have f1: "flagged (m_queInstructions sim1) + flagged ?L = pending_flags sim"
    using admission_flagged[OF adm] by (simp add: pending_flags_flagged)
  have f2: "flagged lst \<le> flagged (pass_list ?L)" using retirement_flagged[OF ret] .
  have f3: "flagged (pass_list ?L) + (if ?c then 1 else 0) = flagged ?L"
    by (rule flagged_pass_list)
  have "unat (m_dwStallCtr sim') \<le> unat (m_dwStallCtr sim) + (if ?c then 1 else 0)"
    using unat_plus_if_le[of "m_dwStallCtr sim" ?c] st s1 by simp
  then show "unat (m_dwStallCtr sim') + pending_flags sim' \<le> unat (m_dwStallCtr sim) + pending_flags sim"
    using f1 f2 f3 q l by (simp add: pending_flags_flagged split: if_splits)
  show "m_queInstructions sim' = m_queInstructions sim \<or>
         m_queInstructions sim' = tl (m_queInstructions sim)"
    using admission_queue[OF adm] q by simp
  show "m_dwStallCtr sim' = m_dwStallCtr sim \<or> m_dwStallCtr sim' = m_dwStallCtr sim + 1"
    using st s1 by simp
qed

lemma run_terminates:
  "\<exists>n t. n \<le> potential sim \<and>
         run_cycles (Suc n) sim = Some (replicate n True @ [False], t) \<and>
         cycle_loop sim = Some t \<and>
         unat (m_dwStallCtr t) + pending_flags t \<le> unat (m_dwStallCtr sim) + pending_flags sim \<and>
         (\<exists>m. m_queInstructions t = drop m (m_queInstructions sim))"
proof (induction "potential sim" arbitrary: sim rule: less_induct)
  case less
  obtain b sim' where st: "ProcessNextCycle sim = Some (b, sim')"
    using ProcessNextCycle_total by blast
  note pot = potential_step[OF st] and fl = flags_step(1)[OF st] and qu = flags_step(2)[OF st]
  from qu have dq: "\<exists>m. m_queInstructions sim' = drop m (m_queInstructions sim)"
    by (metis drop0 drop_Suc)
  show ?case
  proof (cases b)
    case False
    have "run_cycles (Suc 0) sim = Some (replicate 0 True @ [False], sim')"
      using st False by simp
    moreover have "cycle_loop sim = Some sim'"
      using st False by (subst cycle_loop.simps) simp
    ultimately show ?thesis using fl dq by blast
  next
    case True
    with pot have lt: "potential sim' < potential sim" by simp
    from less[OF lt] obtain n t where n: "n \<le> potential sim'"
      and run: "run_cycles (Suc n) sim' = Some (replicate n True @ [False], t)"
      and loop: "cycle_loop sim' = Some t"
      and fl': "unat (m_dwStallCtr t) + pending_flags t \<le> unat (m_dwStallCtr sim') + pending_flags sim'"
      and dq': "\<exists>m. m_queInstructions t = drop m (m_queInstructions sim')"
      by blast
    have "Suc n \<le> potential sim" using n lt by simp
    moreover have "run_cycles (Suc (Suc n)) sim = Some (replicate (Suc n) True @ [False], t)"
      using st True run by simp
    moreover have "cycle_loop sim = Some t"
      using st True loop by (subst cycle_loop.simps) simp
    moreover have "unat (m_dwStallCtr t) + pending_flags t \<le> unat (m_dwStallCtr sim) + pending_flags sim"
      using fl fl' by simp
    moreover have "\<exists>m. m_queInstructions t = drop m (m_queInstructions sim)"
      using dq dq' by (metis drop_drop)
    ultimately show ?thesis by blast
  qed
qed

section \<open>The pass with and without a stall\<close>

lemma pass_list_stall:
  assumes "stalls r" and "list_all (\<lambda>x. \<not> stalls x) older"
  shows "pass_list (newer @ r # older) =
           newer @ SetDataDependent False r # CNoopInstruction_staged PS_EX # map bump older"
    and "visited (newer @ r # older) = rev older"
proof -
  have all: "\<forall>x\<in>set (rev older). \<not> stalls x" using assms(2) by (simp add: list_all_iff)
  have rv: "rev (newer @ r # older) = rev older @ (r # rev newer)" by simp
  have tw: "takeWhile (\<lambda>x. \<not> stalls x) (rev older @ (r # rev newer)) = rev older"
    using takeWhile_append2[of "rev older" "\<lambda>x. \<not> stalls x" "r # rev newer"] all assms(1)
    by auto
  have dw: "dropWhile (\<lambda>x. \<not> stalls x) (rev older @ (r # rev newer)) = r # rev newer"
    using dropWhile_append2[of "rev older" "\<lambda>x. \<not> stalls x" "r # rev newer"] all assms(1)
    by auto
  show "pass_list (newer @ r # older) =
           newer @ SetDataDependent False r # CNoopInstruction_staged PS_EX # map bump older"
    unfolding pass_list_def rv tw dw by (simp add: stall_insert_def rev_map)
  show "visited (newer @ r # older) = rev older"
    unfolding visited_def rv tw ..
qed

lemma pass_list_plain:
  assumes "list_ex stalls L = False"
  shows "pass_list L = map bump L" and "visited L = rev L"
proof -
  have all: "\<forall>x\<in>set (rev L). \<not> stalls x" using assms by (simp add: list_ex_iff)
  then have tw: "takeWhile (\<lambda>x. \<not> stalls x) (rev L) = rev L"
    and dw: "dropWhile (\<lambda>x. \<not> stalls x) (rev L) = []" by simp_all
  show "pass_list L = map bump L" unfolding pass_list_def tw dw
    by (simp add: stall_insert_def rev_map)
  show "visited L = rev L" unfolding visited_def tw ..
qed

section \<open>Facts about the dependency graph\<close>

lemmas graph_defs = IsValid_def SetNodeID_def GetNodeID_def HasNode_def IsValidNodeIndex_def
  GetNumNodes_def

lemma uint_tolower_valid:
  "IsValidNodeID x \<Longrightarrow> 97 \<le> uint (tolower_T x) \<and> uint (tolower_T x) \<le> 121"
  unfolding IsValidNodeID_def tolower_T_def
  apply (auto simp: word_le_def uint_word_ariths split: if_splits)
  done

lemma GetNodeIndex_valid:
  "IsValidNodeID x \<Longrightarrow> unat (GetNodeIndex x) < 25"
proof -
  assume v: "IsValidNodeID x"
  define k where "k = uint (tolower_T x) - 97"
  have k: "0 \<le> k" "k < 25"
    using uint_tolower_valid[OF v] by (simp_all add: k_def)
  have "uint (word_of_int k :: size_t) = k"
    using k by (simp add: uint_word_of_int)
  then have "unat (word_of_int k :: size_t) = nat k"
    by (metis unat_eq_nat_uint)
  moreover have "GetNodeIndex x = word_of_int k"
    using v by (simp add: GetNodeIndex_def k_def)
  ultimately show ?thesis using k by simp
qed

lemma GetNodeIndex_invalid:
  "\<not> IsValidNodeID x \<Longrightarrow> GetNodeIndex x = INVALID_NODE_INDEX"
  by (simp add: GetNodeIndex_def)

lemma INVALID_NODE_INDEX_not_valid: "\<not> IsValidNodeIndex g INVALID_NODE_INDEX"
  by (simp add: IsValidNodeIndex_def INVALID_NODE_INDEX_def)

lemma valid_index_valid_id:
  "IsValidNodeIndex g (GetNodeIndex x) \<Longrightarrow> IsValidNodeID x"
  using GetNodeIndex_invalid INVALID_NODE_INDEX_not_valid by metis

lemma valid_id_nonzero: "IsValidNodeID x \<Longrightarrow> x \<noteq> INVALID_NODE_ID"
  by (auto simp: IsValidNodeID_def INVALID_NODE_ID_def split: if_splits)

lemma valid_index_lt_length:
  "vector_sized g \<Longrightarrow> IsValidNodeIndex g i \<Longrightarrow> unat i < length (m_vNodes g)"
  by (simp add: vector_sized_def IsValidNodeIndex_def word_less_nat_alt)

lemma set_find_dest:
  "m_idDestNode e = m_idDestNode e' \<Longrightarrow> set_find e xs = set_find e' xs"
  by (induction xs) (simp_all add: edge_less_def)

lemma set_insert_absent:
  "set_find e xs = None \<Longrightarrow>
     snd (set_insert e xs) = True \<and> length (fst (set_insert e xs)) = Suc (length xs) \<and>
     set_find e (fst (set_insert e xs)) = Some e"
proof (induction xs)
  case Nil
  then show ?case by (simp add: edge_less_def)
next
  case (Cons x xs)
  show ?case
  proof (cases "edge_less x e")
    case True
    with Cons.prems have absent: "set_find e xs = None" by simp
    obtain xs' b where ins: "set_insert e xs = (xs', b)" by (cases "set_insert e xs")
    from Cons.IH[OF absent] ins True show ?thesis by simp
  next
    case False
    with Cons.prems have "edge_less e x" by (simp split: if_splits)
    with False show ?thesis by (simp add: edge_less_def)
  qed
qed

lemma set_insert_present:
  "set_find e xs \<noteq> None \<Longrightarrow> set_insert e xs = (xs, False)"
  by (induction xs) (auto split: if_splits)

lemma foldl_plus_sum_list:
  "foldl (\<lambda>acc i. acc + h i) a0 is = a0 + sum_list (map h is)"
  for a0 :: "'a::comm_monoid_add"
  by (induction "is" arbitrary: a0) (simp_all add: add.assoc)

lemma GetNumEdges_sum_list:
  "vector_sized g \<Longrightarrow> GetNumEdges g = sum_list (map CGraphNode_GetNumEdges (m_vNodes g))"
proof -
  assume "vector_sized g"
  then have len: "unat (m_nMaxNodes g) = length (m_vNodes g)" by (simp add: vector_sized_def)
  have "map (\<lambda>i. CGraphNode_GetNumEdges (m_vNodes g ! i)) [0..<length (m_vNodes g)]
        = map CGraphNode_GetNumEdges (m_vNodes g)"
    by (simp add: map_nth flip: map_map[unfolded comp_def])
  then show ?thesis
    by (simp add: GetNumEdges_def foldl_plus_sum_list len)
qed

lemma sum_list_map_update:
  "k < length xs \<Longrightarrow> f y = f (xs ! k) + d \<Longrightarrow>
   sum_list (map f (xs[k := y])) = sum_list (map f xs) + d"
  for d :: "'a::comm_monoid_add"
proof -
  assume k: "k < length xs" and fy: "f y = f (xs ! k) + d"
  have a: "xs = take k xs @ xs ! k # drop (Suc k) xs" using k by (rule id_take_nth_drop)
  have b: "xs[k := y] = take k xs @ y # drop (Suc k) xs" using k by (rule upd_conv_take_nth_drop)
  have "sum_list (map f xs) = sum_list (map f (take k xs)) + (f (xs ! k) + sum_list (map f (drop (Suc k) xs)))"
    by (subst a) simp
  moreover have "sum_list (map f (xs[k := y])) = sum_list (map f (take k xs)) + (f y + sum_list (map f (drop (Suc k) xs)))"
    by (subst b) simp
  ultimately show ?thesis using fy by (simp add: ac_simps)
qed

section \<open>The driver's loops in closed form\<close>

lemma queue_instructions_eq:
  "queue_instructions dag sim = queue_all (dag_instructions dag) sim"
proof -
  have "foldl (\<lambda>sim it.
              if IsValid it then
                (let idNode = GetNodeID it;
                     bDataDependent = (if HasEdge (idNode - 1) it then True else False)
                 in snd (InsertInstruction (CInstructionData_new idNode bDataDependent) sim))
              else sim) s ns
        = foldl (\<lambda>s i. snd (InsertInstruction i s)) s (map node_instruction (filter IsValid ns))"
    for s ns
    by (induction ns arbitrary: s) (simp_all add: node_instruction_def Let_def)
  then show ?thesis
    by (simp add: queue_instructions_def queue_all_def dag_instructions_def)
qed

lemma stalls_required_eq:
  "CalculateNumberOfStallsRequired dag =
     int (length (filter IsDataDependent (dag_instructions dag)))"
proof -
  have "foldl (\<lambda>iNumStalls it.
              if IsValid it then
                (let idNode = GetNodeID it in
                 if HasEdge (idNode - 1) it then iNumStalls + 1 else iNumStalls)
              else iNumStalls) k ns
        = k + int (length (filter IsDataDependent (map node_instruction (filter IsValid ns))))"
    for k ns
    by (induction ns arbitrary: k)
       (simp_all add: node_instruction_def Let_def instr_defs)
  then show ?thesis
    by (simp add: CalculateNumberOfStallsRequired_def dag_instructions_def)
qed

lemma set_find_Some:
  "set_find e xs = Some x \<Longrightarrow> x \<in> set xs \<and> m_idDestNode x = m_idDestNode e"
  by (induction xs) (auto simp: edge_less_def split: if_splits)

lemma HasEdge_member:
  "HasEdge d n \<Longrightarrow> \<exists>e\<in>set (m_setEdges n). m_idDestNode e = d"
  using set_find_Some[of "CDirectedEdgeData_new d 0" "m_setEdges n"]
  by (auto simp: HasEdge_def CDirectedEdgeData_new_def)

lemma uint_valid_id:
  "IsValidNodeID x \<Longrightarrow> (97 \<le> uint x \<and> uint x \<le> 121) \<or> (65 \<le> uint x \<and> uint x \<le> 89)"
  unfolding IsValidNodeID_def
  by (auto simp: word_le_def split: if_splits)

lemma uint_tolower:
  "uint (tolower_T x) = (if 65 \<le> uint x \<and> uint x \<le> 90 then uint x + 32 else uint x)"
  unfolding tolower_T_def
  by (auto simp: word_le_def uint_word_ariths)

lemma unat_GetNodeIndex:
  assumes "IsValidNodeID x"
  shows "int (unat (GetNodeIndex x)) = uint (tolower_T x) - 97"
proof -
  define k where "k = uint (tolower_T x) - 97"
  have k: "0 \<le> k" "k < 25"
    using uint_tolower_valid[OF assms] by (simp_all add: k_def)
  have "uint (word_of_int k :: size_t) = k"
    using k by (simp add: uint_word_of_int)
  then have "unat (word_of_int k :: size_t) = nat k"
    by (metis unat_eq_nat_uint)
  moreover have "GetNodeIndex x = word_of_int k"
    using assms by (simp add: GetNodeIndex_def k_def)
  ultimately show ?thesis using k by (simp add: k_def)
qed

lemma GetNodeIndex_pred:
  assumes "IsValidNodeID x" "IsValidNodeID (x - 1)"
  shows "unat (GetNodeIndex (x - 1)) < unat (GetNodeIndex x)"
proof -
  have x1: "1 \<le> uint x" using uint_valid_id[OF assms(1)] by auto
  have sub: "uint (x - 1) = uint x - 1"
    using x1 by (simp add: uint_sub_if')
  have "int (unat (GetNodeIndex (x - 1))) < int (unat (GetNodeIndex x))"
    using uint_valid_id[OF assms(1)] uint_valid_id[OF assms(2)]
    unfolding unat_GetNodeIndex[OF assms(1)] unat_GetNodeIndex[OF assms(2)] uint_tolower sub
    by auto
  then have "uint (GetNodeIndex (x - 1)) < uint (GetNodeIndex x)" by simp
  then show ?thesis by (metis word_less_def word_less_nat_alt)
qed

lemma well_formed_nodeD:
  assumes "well_formed g" "i < length (m_vNodes g)" "IsValid (m_vNodes g ! i)"
  shows "IsValidNodeID (m_ID (m_vNodes g ! i))"
    and "unat (GetNodeIndex (m_ID (m_vNodes g ! i))) = i"
    and "\<And>e. e \<in> set (m_setEdges (m_vNodes g ! i)) \<Longrightarrow>
           IsValidNodeID (m_idDestNode e) \<and> HasNode (m_idDestNode e) g"
proof -
  from assms(1,2) have "node_ok g i" by (simp add: well_formed_def list_all_iff)
  with assms(3) show "IsValidNodeID (m_ID (m_vNodes g ! i))"
    and "unat (GetNodeIndex (m_ID (m_vNodes g ! i))) = i"
    and "\<And>e. e \<in> set (m_setEdges (m_vNodes g ! i)) \<Longrightarrow>
           IsValidNodeID (m_idDestNode e) \<and> HasNode (m_idDestNode e) g"
    by (simp_all add: node_ok_def list_all_iff)
qed

lemma valid_id_not_NOOP: "IsValidNodeID x \<Longrightarrow> x \<noteq> NOOP_INSTRUCTION"
  by (auto simp: IsValidNodeID_def NOOP_INSTRUCTION_def split: if_splits)

lemma dag_instructions_fresh:
  assumes "well_formed g"
  shows "list_all fresh_instruction (dag_instructions g)"
proof -
  have "fresh_instruction (node_instruction n)" if "n \<in> set (m_vNodes g)" "IsValid n" for n
  proof -
    from that(1) obtain i where i: "i < length (m_vNodes g)" "m_vNodes g ! i = n"
      by (auto simp: in_set_conv_nth)
    from well_formed_nodeD(1)[OF assms i(1)] that(2) i(2)
    have "IsValidNodeID (m_ID n)" by simp
    then show ?thesis
      using valid_id_not_NOOP
      by (simp add: fresh_instruction_def node_instruction_def instr_defs GetNodeID_def)
  qed
  then show ?thesis by (simp add: dag_instructions_def list_all_iff)
qed

lemma first_valid_not_dependent:
  assumes wf: "well_formed g" and ne: "dag_instructions g \<noteq> []"
  shows "IsDataDependent (hd (dag_instructions g)) = False"
proof -
  from ne obtain n rest where f: "filter IsValid (m_vNodes g) = n # rest"
    by (cases "filter IsValid (m_vNodes g)") (auto simp: dag_instructions_def)
  then obtain us vs where split: "m_vNodes g = us @ n # vs"
    and before: "\<forall>u\<in>set us. \<not> IsValid u" and valid: "IsValid n"
    by (auto simp: filter_eq_Cons_iff)
  let ?i = "length us"
  have i: "?i < length (m_vNodes g)" and ni: "m_vNodes g ! ?i = n"
    using split by simp_all
  have idn: "IsValidNodeID (m_ID n)" and slot: "unat (GetNodeIndex (m_ID n)) = ?i"
    using well_formed_nodeD(1,2)[OF wf i] valid ni by simp_all
  have "\<not> HasEdge (m_ID n - 1) n"
  proof
    assume "HasEdge (m_ID n - 1) n"
    then obtain e where e: "e \<in> set (m_setEdges n)" "m_idDestNode e = m_ID n - 1"
      using HasEdge_member by blast
    have v': "IsValid (m_vNodes g ! ?i)" using valid ni by simp
    have e': "e \<in> set (m_setEdges (m_vNodes g ! ?i))" using e(1) ni by simp
    from well_formed_nodeD(3)[OF wf i v' e']
    have idp: "IsValidNodeID (m_ID n - 1)" and has: "HasNode (m_ID n - 1) g"
      unfolding e(2) by simp_all
    let ?j = "unat (GetNodeIndex (m_ID n - 1))"
    have lt: "?j < ?i" using GetNodeIndex_pred[OF idn idp] slot by simp
    from has have "IsValid (m_vNodes g ! ?j)"
      by (auto simp: HasNode_def Let_def split: if_splits)
    moreover have "m_vNodes g ! ?j \<in> set us"
      using lt split by (simp add: nth_append)
    ultimately show False using before by blast
  qed
  then show ?thesis
    using f by (simp add: dag_instructions_def node_instruction_def instr_defs GetNodeID_def)
qed

lemma valid_nodes_le_25:
  assumes wf: "well_formed g"
  shows "length (filter IsValid (m_vNodes g)) \<le> 25"
proof -
  let ?ns = "m_vNodes g"
  have late: "\<not> IsValid n" if "n \<in> set (drop 25 ?ns)" for n
  proof
    assume v: "IsValid n"
    from that obtain k where k: "k < length (drop 25 ?ns)" "drop 25 ?ns ! k = n"
      by (auto simp: in_set_conv_nth)
    then have i: "25 + k < length ?ns" and n: "?ns ! (25 + k) = n" by simp_all
    from well_formed_nodeD(1,2)[OF wf i] v n
    have "IsValidNodeID (m_ID n)" "unat (GetNodeIndex (m_ID n)) = 25 + k" by simp_all
    with GetNodeIndex_valid[of "m_ID n"] show False by simp
  qed
  have "filter IsValid ?ns = filter IsValid (take 25 ?ns @ drop 25 ?ns)" by simp
  also have "\<dots> = filter IsValid (take 25 ?ns)"
    using late by (simp only: filter_append) (simp add: filter_empty_conv)
  finally have "length (filter IsValid ?ns) \<le> length (take 25 ?ns)"
    by (simp only: length_filter_le)
  then show ?thesis by simp
qed

section \<open>Graphs built from well-formed input are well formed\<close>

lemma well_formed_new: "well_formed (CDependencyGraph_sized nMaxNodes)"
  by (simp add: well_formed_def vector_sized_def CDependencyGraph_sized_def node_ok_def
        list_all_iff IsValid_def CGraphNode_new_def)

lemma set_insert_subset: "set (fst (set_insert e xs)) \<subseteq> insert e (set xs)"
  by (induction xs) (auto split: prod.splits)

lemma AddNode_result:
  assumes "vector_sized g"
  shows "AddNode c g = (False, g) \<or>
     (unat (GetNodeIndex c) < length (m_vNodes g) \<and> IsValidNodeID c \<and>
      \<not> IsValid (m_vNodes g ! unat (GetNodeIndex c)) \<and>
      AddNode c g =
        (True, g\<lparr>m_vNodes := (m_vNodes g)[unat (GetNodeIndex c) :=
                                 SetNodeID c (m_vNodes g ! unat (GetNodeIndex c))],
                 m_nNumNodes := m_nNumNodes g + 1\<rparr>))"
proof (cases "IsValidNodeIndex g (GetNodeIndex c) \<and> \<not> IsValid (m_vNodes g ! unat (GetNodeIndex c))")
  case False
  then show ?thesis by (auto simp: AddNode_def Let_def)
next
  case True
  then have "unat (GetNodeIndex c) < length (m_vNodes g)" "IsValidNodeID c"
    using assms valid_index_lt_length valid_index_valid_id by blast+
  then show ?thesis using True by (simp add: AddNode_def Let_def)
qed

lemma HasNode_update_mono:
  assumes "HasNode d g" "k < length (m_vNodes g)" "\<not> IsValid (m_vNodes g ! k)"
  shows "HasNode d (g\<lparr>m_vNodes := (m_vNodes g)[k := n'], m_nNumNodes := m\<rparr>)"
proof -
  from assms(1) have idx: "IsValidNodeIndex g (GetNodeIndex d)"
    and v: "IsValid (m_vNodes g ! unat (GetNodeIndex d))"
    by (auto simp: HasNode_def Let_def split: if_splits)
  from v assms(3) have "unat (GetNodeIndex d) \<noteq> k" by auto
  with idx v show ?thesis
    by (simp add: HasNode_def Let_def IsValidNodeIndex_def)
qed

lemma well_formed_AddNode:
  assumes wf: "well_formed g"
  shows "well_formed (snd (AddNode c g))"
proof -
  from wf have vs: "vector_sized g" by (simp add: well_formed_def)
  define k where "k = unat (GetNodeIndex c)"
  consider (unchanged) "AddNode c g = (False, g)"
    | (added) "k < length (m_vNodes g)" "IsValidNodeID c" "\<not> IsValid (m_vNodes g ! k)"
        "AddNode c g = (True, g\<lparr>m_vNodes := (m_vNodes g)[k := SetNodeID c (m_vNodes g ! k)],
                               m_nNumNodes := m_nNumNodes g + 1\<rparr>)"
    using AddNode_result[OF vs, of c] unfolding k_def by blast
  then show ?thesis
  proof cases
    case unchanged
    with wf show ?thesis by simp
  next
    case added
    let ?g' = "g\<lparr>m_vNodes := (m_vNodes g)[k := SetNodeID c (m_vNodes g ! k)],
                 m_nNumNodes := m_nNumNodes g + 1\<rparr>"
    have vs': "vector_sized ?g'" using vs by (simp add: vector_sized_def)
    have empty: "m_setEdges (m_vNodes g ! k) = []"
      using wf added(1,3) by (simp add: well_formed_def list_all_iff node_ok_def)
    have "node_ok ?g' i" if i: "i < length (m_vNodes g)" for i
    proof (cases "i = k")
      case True
      then show ?thesis
        using added(1,2) empty valid_id_nonzero[OF added(2)] k_def
        by (simp add: node_ok_def IsValid_def SetNodeID_def)
    next
      case False
      from wf i have ok: "node_ok g i" by (simp add: well_formed_def list_all_iff)
      show ?thesis
      proof (cases "IsValid (m_vNodes g ! i)")
        case True
        with ok have "list_all (\<lambda>e. IsValidNodeID (m_idDestNode e) \<and> HasNode (m_idDestNode e) g)
          (m_setEdges (m_vNodes g ! i))" by (simp add: node_ok_def)
        then have "list_all (\<lambda>e. IsValidNodeID (m_idDestNode e) \<and> HasNode (m_idDestNode e) ?g')
          (m_setEdges (m_vNodes g ! i))"
          using HasNode_update_mono[OF _ added(1,3)] by (auto simp: list_all_iff)
        with ok True False show ?thesis by (simp add: node_ok_def)
      next
        case nv: False
        with ok False show ?thesis by (simp add: node_ok_def)
      qed
    qed
    then have "well_formed ?g'" using vs' by (simp add: well_formed_def list_all_iff)
    with added(4) show ?thesis by simp
  qed
qed

lemma HasNode_edges_irrelevant:
  "k < length (m_vNodes g) \<Longrightarrow>
   HasNode d (g\<lparr>m_vNodes := (m_vNodes g)[k := (m_vNodes g ! k)\<lparr>m_setEdges := es\<rparr>]\<rparr>) = HasNode d g"
  by (cases "unat (GetNodeIndex d) = k")
     (simp_all add: HasNode_def Let_def IsValidNodeIndex_def IsValid_def)

lemma well_formed_AddEdge:
  assumes wf: "well_formed g" and dest: "HasNode idTo g"
  shows "well_formed (snd (AddEdge idFrom idTo w g))"
proof (cases "IsValidNodeID idFrom \<and> IsValidNodeID idTo \<and> IsValidNodeIndex g (GetNodeIndex idFrom)
              \<and> IsValid (m_vNodes g ! unat (GetNodeIndex idFrom))")
  case False
  then have "AddEdge idFrom idTo w g = (False, g)"
    by (auto simp: AddEdge_def Let_def CGraphNode_AddEdge_def CGraphNode_AddEdge_data_def)
  with wf show ?thesis by simp
next
  case True
  from wf have vs: "vector_sized g" by (simp add: well_formed_def)
  let ?k = "unat (GetNodeIndex idFrom)"
  let ?e = "CDirectedEdgeData_new idTo w"
  let ?es = "fst (set_insert ?e (m_setEdges (m_vNodes g ! ?k)))"
  let ?g' = "g\<lparr>m_vNodes := (m_vNodes g)[?k := (m_vNodes g ! ?k)\<lparr>m_setEdges := ?es\<rparr>]\<rparr>"
  have k: "?k < length (m_vNodes g)" using True vs valid_index_lt_length by blast
  have eq: "snd (AddEdge idFrom idTo w g) = ?g'"
    using True
    by (simp add: AddEdge_def Let_def CGraphNode_AddEdge_def CGraphNode_AddEdge_data_def
          split: prod.splits)
  have vs': "vector_sized ?g'" using vs by (simp add: vector_sized_def)
  have hn: "HasNode d ?g' = HasNode d g" for d
    using HasNode_edges_irrelevant[OF k] .
  have "node_ok ?g' i" if i: "i < length (m_vNodes g)" for i
  proof -
    from wf i have ok: "node_ok g i" by (simp add: well_formed_def list_all_iff)
    show ?thesis
    proof (cases "i = ?k")
      case False
      with ok show ?thesis by (simp add: node_ok_def hn)
    next
      case ik: True
      from ok True ik have old: "list_all (\<lambda>e. IsValidNodeID (m_idDestNode e) \<and> HasNode (m_idDestNode e) g)
          (m_setEdges (m_vNodes g ! ?k))"
        and id: "IsValidNodeID (m_ID (m_vNodes g ! ?k))"
        and slot: "unat (GetNodeIndex (m_ID (m_vNodes g ! ?k))) = ?k"
        by (simp_all add: node_ok_def)
      have "IsValidNodeID (m_idDestNode x) \<and> HasNode (m_idDestNode x) g" if "x \<in> set ?es" for x
      proof -
        from that set_insert_subset have "x = ?e \<or> x \<in> set (m_setEdges (m_vNodes g ! ?k))"
          by blast
        then show ?thesis
          using old True dest by (auto simp: list_all_iff CDirectedEdgeData_new_def)
      qed
      then show ?thesis
        using ik k True id slot by (simp add: node_ok_def hn list_all_iff IsValid_def)
    qed
  qed
  then have "well_formed ?g'" using vs' by (simp add: well_formed_def list_all_iff)
  then show ?thesis by (simp only: eq)
qed

lemma HasNode_AddEdge:
  "vector_sized g \<Longrightarrow> HasNode d (snd (AddEdge idFrom idTo w g)) = HasNode d g"
proof (cases "IsValidNodeID idFrom \<and> IsValidNodeID idTo \<and> IsValidNodeIndex g (GetNodeIndex idFrom)")
  case False
  then show ?thesis by (auto simp: AddEdge_def Let_def)
next
  case True
  assume vs: "vector_sized g"
  let ?k = "unat (GetNodeIndex idFrom)"
  have k: "?k < length (m_vNodes g)" using True vs valid_index_lt_length by blast
  obtain b n' where r: "CGraphNode_AddEdge idTo w (m_vNodes g ! ?k) = (b, n')"
    by (cases "CGraphNode_AddEdge idTo w (m_vNodes g ! ?k)")
  then obtain es where "n' = (m_vNodes g ! ?k)\<lparr>m_setEdges := es\<rparr>"
    by (auto simp: CGraphNode_AddEdge_def CGraphNode_AddEdge_data_def split: if_splits prod.splits)
       (metis CGraphNode.surjective CGraphNode.update_convs(2) old.unit.exhaust)
  with r True HasNode_edges_irrelevant[OF k] show ?thesis
    by (simp add: AddEdge_def Let_def)
qed

lemma LoadData_well_formed:
  assumes "well_formed dag"
      and "\<forall>(idSrcNode, idDestNode) \<in> set pairs. HasNode idDestNode (nodes_loaded tokens dag)"
  shows "well_formed (LoadData_calls tokens pairs dag)"
proof -
  have nodes: "well_formed (foldl (\<lambda>g c. snd (AddNode c g)) g cs)" if "well_formed g" for g cs
    using that by (induction cs arbitrary: g) (simp_all add: well_formed_AddNode)
  have edges: "well_formed (foldl (\<lambda>g (idSrcNode, idDestNode).
              snd (AddEdge idSrcNode idDestNode (uint idSrcNode - uint idDestNode) g)) g ps)"
    if "well_formed g" "\<forall>(s, d) \<in> set ps. HasNode d g" for g ps
    using that
  proof (induction ps arbitrary: g)
    case Nil
    then show ?case by simp
  next
    case (Cons p ps)
    obtain s d where p: "p = (s, d)" by (cases p)
    let ?g' = "snd (AddEdge s d (uint s - uint d) g)"
    have vs: "vector_sized g" using Cons.prems(1) by (simp add: well_formed_def)
    have "well_formed ?g'" using Cons.prems p by (intro well_formed_AddEdge) auto
    moreover have "\<forall>(s', d') \<in> set ps. HasNode d' ?g'"
      using Cons.prems(2) HasNode_AddEdge[OF vs] by auto
    ultimately show ?case using Cons.IH[of ?g'] p by simp
  qed
  show ?thesis
    unfolding LoadData_calls_def
    using edges[OF nodes[OF assms(1)], of pairs "take (unat MAX_INSTRUCTIONS) tokens"] assms(2)
    by (simp add: nodes_loaded_def)
qed

section \<open>Claims about the dependency graph\<close>

text \<open>
  Claim C6, as stated: for every identity of the alphabet, \<^verbatim>\<open>AddNode(x)\<close> twice
  returns false the second time and \<^verbatim>\<open>GetNumNodes()\<close> grows by one in total.
  The second call does return false, whatever the graph. The count grows by one
  only when the first call succeeds: \<^verbatim>\<open>AddNode\<close> refuses an identity whose slot is
  not below the capacity, and the default constructor gives ten slots, so that
  \<^verbatim>\<open>'k'\<close> (code 107, slot 10) is refused twice by a default-constructed graph
  and the count does not move.
\<close>

theorem AddNode_beyond_capacity:
  "IsValidNodeID 107 \<and> fst (AddNode 107 CDependencyGraph_new) = False \<and>
   GetNumNodes (snd (AddNode 107 (snd (AddNode 107 CDependencyGraph_new)))) =
     GetNumNodes CDependencyGraph_new \<and>
   GetNumNodes (snd (AddNode 107 (snd (AddNode 107 CDependencyGraph_new)))) \<noteq>
     GetNumNodes CDependencyGraph_new + 1"
  by code_simp

text \<open>
  Claim C6, amended: in a graph whose vector has the length of its capacity, the
  second of two calls \<^verbatim>\<open>AddNode(x)\<close> returns false and leaves the graph as the
  first call left it; when the slot of \<open>x\<close> is below the capacity and still
  vacant, the first call returns true and \<^verbatim>\<open>GetNumNodes()\<close> grows by exactly one
  over the two calls. The slot of every identity of the alphabet is below the
  capacity when the capacity is at least 25, as it is in the driver's graph.
\<close>

theorem AddNode_twice:
  assumes "vector_sized g"
  shows "fst (AddNode x (snd (AddNode x g))) = False \<and>
         snd (AddNode x (snd (AddNode x g))) = snd (AddNode x g) \<and>
         (IsValidNodeIndex g (GetNodeIndex x) \<and> \<not> HasNode x g \<longrightarrow>
            fst (AddNode x g) = True \<and>
            GetNumNodes (snd (AddNode x (snd (AddNode x g)))) = GetNumNodes g + 1) \<and>
         (IsValidNodeID x \<and> 25 \<le> m_nMaxNodes g \<longrightarrow> IsValidNodeIndex g (GetNodeIndex x))"
proof -
  have big: "IsValidNodeID x \<Longrightarrow> 25 \<le> m_nMaxNodes g \<Longrightarrow> IsValidNodeIndex g (GetNodeIndex x)"
    using GetNodeIndex_valid[of x]
    by (simp add: IsValidNodeIndex_def word_less_nat_alt word_le_nat_alt)
  show ?thesis
  proof (cases "IsValidNodeIndex g (GetNodeIndex x)")
    case False
    then show ?thesis using big by (auto simp: AddNode_def Let_def)
  next
    case True
    then have lt: "unat (GetNodeIndex x) < length (m_vNodes g)"
      using assms valid_index_lt_length by blast
    have nz: "x \<noteq> INVALID_NODE_ID"
      using True valid_index_valid_id valid_id_nonzero by blast
    show ?thesis using True lt nz
      by (auto simp: AddNode_def Let_def graph_defs)
  qed
qed

theorem AddNode_twice_witness:
  "vector_sized (CDependencyGraph_sized 25) \<and>
   IsValidNodeIndex (CDependencyGraph_sized 25) (GetNodeIndex 98) \<and>
   \<not> HasNode 98 (CDependencyGraph_sized 25) \<and> IsValidNodeID 98 \<and>
   25 \<le> m_nMaxNodes (CDependencyGraph_sized 25) \<and>
   fst (AddNode 98 (CDependencyGraph_sized 25)) = True \<and>
   fst (AddNode 98 (snd (AddNode 98 (CDependencyGraph_sized 25)))) = False \<and>
   GetNumNodes (snd (AddNode 98 (snd (AddNode 98 (CDependencyGraph_sized 25))))) =
     GetNumNodes (CDependencyGraph_sized 25) + 1"
proof -
  have vs: "vector_sized (CDependencyGraph_sized 25)"
    by (simp add: vector_sized_def CDependencyGraph_sized_def)
  have idx: "IsValidNodeIndex (CDependencyGraph_sized 25) (GetNodeIndex 98)"
    by (simp add: IsValidNodeIndex_def GetNodeIndex_def IsValidNodeID_def tolower_T_def
          CDependencyGraph_sized_def)
  have absent: "\<not> HasNode 98 (CDependencyGraph_sized 25)"
    by (simp add: HasNode_def IsValidNodeIndex_def GetNodeIndex_def IsValidNodeID_def
          tolower_T_def CDependencyGraph_sized_def IsValid_def CGraphNode_new_def)
  have id: "IsValidNodeID 98" by (simp add: IsValidNodeID_def)
  have cap: "25 \<le> m_nMaxNodes (CDependencyGraph_sized 25)"
    by (simp add: CDependencyGraph_sized_def)
  show ?thesis
    using AddNode_twice [OF vs, of 98] vs idx absent id cap by auto
qed

text \<open>
  Claim C7: for \<open>b\<close> in the alphabet and \<open>a\<close> a node of the graph that has no
  edge to \<open>b\<close> yet, \<^verbatim>\<open>AddEdge(a, b, w)\<close> returns true; a second call with the
  same destination, whatever its weight, returns false and leaves the graph as
  it is; \<^verbatim>\<open>GetNumEdges()\<close> has grown by exactly one, and the edge found for
  \<open>b\<close> still carries the first weight.
\<close>

theorem AddEdge_twice:
  assumes vs: "vector_sized g" and b: "IsValidNodeID b" and a: "HasNode a g"
      and absent: "HasEdge b (m_vNodes g ! unat (GetNodeIndex a)) = False"
  shows "fst (AddEdge a b w g) = True \<and>
         fst (AddEdge a b w' (snd (AddEdge a b w g))) = False \<and>
         snd (AddEdge a b w' (snd (AddEdge a b w g))) = snd (AddEdge a b w g) \<and>
         GetNumEdges (snd (AddEdge a b w' (snd (AddEdge a b w g)))) = GetNumEdges g + 1 \<and>
         set_find (CDirectedEdgeData_new b 0)
           (m_setEdges (m_vNodes (snd (AddEdge a b w' (snd (AddEdge a b w g)))) !
              unat (GetNodeIndex a))) = Some (CDirectedEdgeData_new b w)"
proof -
  let ?k = "unat (GetNodeIndex a)"
  let ?n = "m_vNodes g ! ?k"
  let ?e = "CDirectedEdgeData_new b w"
  from a have idx: "IsValidNodeIndex g (GetNodeIndex a)" and valid: "IsValid ?n"
    by (auto simp: HasNode_def Let_def split: if_splits)
  have ida: "IsValidNodeID a" using idx valid_index_valid_id by blast
  have lt: "?k < length (m_vNodes g)" using vs idx valid_index_lt_length by blast
  from absent have none: "set_find ?e (m_setEdges ?n) = None"
    using set_find_dest[of ?e "CDirectedEdgeData_new b 0" "m_setEdges ?n"]
    by (simp add: HasEdge_def CDirectedEdgeData_new_def)
  obtain es where ins: "set_insert ?e (m_setEdges ?n) = (es, True)"
    and len: "length es = Suc (length (m_setEdges ?n))" and found: "set_find ?e es = Some ?e"
    using set_insert_absent[OF none] by (cases "set_insert ?e (m_setEdges ?n)") auto
  let ?n1 = "?n\<lparr>m_setEdges := es\<rparr>"
  let ?g1 = "g\<lparr>m_vNodes := (m_vNodes g)[?k := ?n1]\<rparr>"
  have first: "AddEdge a b w g = (True, ?g1)"
    using ida b idx valid ins
    by (simp add: AddEdge_def Let_def CGraphNode_AddEdge_def CGraphNode_AddEdge_data_def)
  have valid1: "IsValid ?n1" using valid by (simp add: IsValid_def)
  have found': "set_find (CDirectedEdgeData_new b w') es \<noteq> None"
    using found set_find_dest[of "CDirectedEdgeData_new b w'" ?e es]
    by (simp add: CDirectedEdgeData_new_def)
  have second: "AddEdge a b w' ?g1 = (False, ?g1)"
    using ida b idx valid1 lt set_insert_present[OF found']
    by (simp add: AddEdge_def Let_def CGraphNode_AddEdge_def CGraphNode_AddEdge_data_def
          IsValidNodeIndex_def)
  have vs1: "vector_sized ?g1" using vs by (simp add: vector_sized_def)
  have cnt: "CGraphNode_GetNumEdges ?n1 = CGraphNode_GetNumEdges ?n + 1"
    using valid valid1 len by (simp add: CGraphNode_GetNumEdges_def)
  have edges: "GetNumEdges ?g1 = GetNumEdges g + 1"
    using sum_list_map_update[OF lt cnt]
    by (simp add: GetNumEdges_sum_list[OF vs] GetNumEdges_sum_list[OF vs1])
  have look: "set_find (CDirectedEdgeData_new b 0) (m_setEdges (m_vNodes ?g1 ! ?k)) = Some ?e"
    using found lt set_find_dest[of "CDirectedEdgeData_new b 0" ?e es]
    by (simp add: CDirectedEdgeData_new_def)
  show ?thesis using first second edges look by simp
qed

theorem AddEdge_twice_witness:
  "vector_sized (snd (AddNode 98 (CDependencyGraph_sized 25))) \<and> IsValidNodeID 97 \<and>
   HasNode 98 (snd (AddNode 98 (CDependencyGraph_sized 25))) \<and>
   HasEdge 97 (m_vNodes (snd (AddNode 98 (CDependencyGraph_sized 25))) ! unat (GetNodeIndex 98)) = False \<and>
   fst (AddEdge 98 97 1 (snd (AddNode 98 (CDependencyGraph_sized 25)))) = True \<and>
   fst (AddEdge 98 97 7 (snd (AddEdge 98 97 1 (snd (AddNode 98 (CDependencyGraph_sized 25)))))) = False"
proof -
  let ?g = "snd (AddNode 98 (CDependencyGraph_sized 25))"
  have vs: "vector_sized ?g" by code_simp
  have b: "IsValidNodeID 97" by (simp add: IsValidNodeID_def)
  have a: "HasNode 98 ?g" by code_simp
  have absent: "HasEdge 97 (m_vNodes ?g ! unat (GetNodeIndex 98)) = False" by code_simp
  show ?thesis
    using AddEdge_twice [OF vs b a absent, of 1 7] vs b a absent by simp
qed

text \<open>
  Claim C8, as stated: \<^verbatim>\<open>AddEdge\<close> returns false when the source or the
  destination has not been added with \<^verbatim>\<open>AddNode\<close>. The destination is only
  checked against the alphabet: in a graph of 25 slots holding the node
  \<^verbatim>\<open>'a'\<close> (97) alone, \<^verbatim>\<open>AddEdge('a', 'b', 1)\<close> returns true and the graph has an
  edge, though \<^verbatim>\<open>'b'\<close> (98) is no node of it.
\<close>

theorem AddEdge_to_absent_destination:
  "HasNode 98 (snd (AddNode 97 (CDependencyGraph_sized 25))) = False \<and>
   fst (AddEdge 97 98 1 (snd (AddNode 97 (CDependencyGraph_sized 25)))) = True \<and>
   GetNumEdges (snd (AddNode 97 (CDependencyGraph_sized 25))) = 0 \<and>
   GetNumEdges (snd (AddEdge 97 98 1 (snd (AddNode 97 (CDependencyGraph_sized 25))))) = 1"
  by code_simp

text \<open>
  Claim C8, amended: \<^verbatim>\<open>AddEdge\<close> returns false and leaves the graph unchanged
  whenever the source or the destination is outside the alphabet, or the source
  is not a node of the graph.
\<close>

theorem AddEdge_unregistered:
  "\<not> IsValidNodeID idFromNode \<or> \<not> IsValidNodeID idToNode \<or> \<not> HasNode idFromNode g \<Longrightarrow>
   AddEdge idFromNode idToNode iWeight g = (False, g)"
  by (auto simp: AddEdge_def Let_def HasNode_def CGraphNode_AddEdge_def
        CGraphNode_AddEdge_data_def)

theorem AddEdge_unregistered_witness:
  "\<not> HasNode 99 (snd (AddNode 97 (CDependencyGraph_sized 25))) \<and>
   AddEdge 99 97 2 (snd (AddNode 97 (CDependencyGraph_sized 25))) =
     (False, snd (AddNode 97 (CDependencyGraph_sized 25)))"
proof -
  have h: "\<not> HasNode 99 (snd (AddNode 97 (CDependencyGraph_sized 25)))" by code_simp
  then have "\<not> IsValidNodeID 99 \<or> \<not> IsValidNodeID 97 \<or>
      \<not> HasNode 99 (snd (AddNode 97 (CDependencyGraph_sized 25)))" by simp
  from AddEdge_unregistered [OF this, of 2] h show ?thesis by simp
qed

section \<open>Claims about the pipeline simulator\<close>

text \<open>
  Claim C10: the retirement step never reads the back of an empty list. Every
  sequence of \<^verbatim>\<open>InsertInstruction\<close> and \<^verbatim>\<open>ProcessNextCycle\<close> calls on a new
  simulator is defined; so is \<^verbatim>\<open>ProcessNextCycle\<close> in any state, because the
  list is not empty after the admission step; and on a new simulator with
  nothing queued the call sets the cycle counter to one, leaves a single bubble
  (by then in Fetch) in the list, and returns false.
\<close>

theorem retirement_never_on_empty_list:
  "(\<exists>sim'. run_calls cs CPipelineSim_new = Some sim') \<and>
   (\<exists>b sim'. ProcessNextCycle sim = Some (b, sim')) \<and>
   m_lstInstructionPipeline (snd (admission (sim\<lparr>m_dwCycle := m_dwCycle sim + 1\<rparr>))) \<noteq> [] \<and>
   ProcessNextCycle CPipelineSim_new =
     Some (False, CPipelineSim_new\<lparr>m_dwCycle := 1,
                    m_lstInstructionPipeline := [CNoopInstruction_staged PS_IF]\<rparr>)"
proof -
  have "\<exists>sim'. run_calls cs s = Some sim'" for s
  proof (induction cs arbitrary: s)
    case Nil
    show ?case by simp
  next
    case (Cons c cs)
    show ?case
    proof (cases c)
      case (Call_InsertInstruction i)
      then show ?thesis using Cons by simp
    next
      case Call_ProcessNextCycle
      obtain b s' where "ProcessNextCycle s = Some (b, s')"
        using ProcessNextCycle_total by blast
      then show ?thesis using Call_ProcessNextCycle Cons by simp
    qed
  qed
  moreover have "ProcessNextCycle CPipelineSim_new =
     Some (False, CPipelineSim_new\<lparr>m_dwCycle := 1,
                    m_lstInstructionPipeline := [CNoopInstruction_staged PS_IF]\<rparr>)"
    by (simp add: pnc_defs CPipelineSim_new_def CONCURRENT_INSTRUCTION_LIMIT_def instr_defs)
  moreover have "m_lstInstructionPipeline (snd (admission (sim\<lparr>m_dwCycle := m_dwCycle sim + 1\<rparr>))) \<noteq> []"
    using admission_list_nonempty[of "sim\<lparr>m_dwCycle := m_dwCycle sim + 1\<rparr>"]
    by (cases "admission (sim\<lparr>m_dwCycle := m_dwCycle sim + 1\<rparr>)") simp
  ultimately show ?thesis using ProcessNextCycle_total by blast
qed

theorem retirement_never_on_empty_list_witness:
  "\<exists>sim'. run_calls [Call_ProcessNextCycle, Call_InsertInstruction (CInstructionData_new 97 True),
              Call_ProcessNextCycle, Call_ProcessNextCycle, Call_ProcessNextCycle]
            CPipelineSim_new = Some sim'"
  using retirement_never_on_empty_list
    [of "[Call_ProcessNextCycle, Call_InsertInstruction (CInstructionData_new 97 True),
          Call_ProcessNextCycle, Call_ProcessNextCycle, Call_ProcessNextCycle]"]
  by blast

text \<open>
  Claim C1: when the pass reaches a record in Decode whose flag is set (every
  older record has been visited without a stall), the call leaves the record
  in Decode with its flag cleared, puts a bubble in stage Execute directly behind
  it, between it and the older records, adds one to the stall counter and
  leaves the newer records as they were; the older records have been advanced,
  and the retirement step may then have removed the oldest. In any state, one
  call adds at most one to the stall counter.
\<close>

theorem stall_in_decode:
  assumes adm: "admission (sim\<lparr>m_dwCycle := m_dwCycle sim + 1\<rparr>) = (b0, sim1)"
      and L: "m_lstInstructionPipeline sim1 = newer @ r # older"
      and r: "GetState r = PS_ID" "IsDataDependent r"
      and reach: "list_all (\<lambda>x. \<not> stalls x) older"
  shows "(\<exists>b sim' older'.
            ProcessNextCycle sim = Some (b, sim') \<and>
            retirement (newer @ SetDataDependent False r # CNoopInstruction_staged PS_EX #
                          map bump older) = Some (m_lstInstructionPipeline sim') \<and>
            m_lstInstructionPipeline sim' =
              newer @ SetDataDependent False r # CNoopInstruction_staged PS_EX # older' \<and>
            (older' = map bump older \<or> older' = butlast (map bump older)) \<and>
            GetState (SetDataDependent False r) = PS_ID \<and>
            IsDataDependent (SetDataDependent False r) = False \<and>
            GetState (CNoopInstruction_staged PS_EX) = PS_EX \<and>
            IsNOOP (CNoopInstruction_staged PS_EX) \<and>
            GetStallCount sim' = GetStallCount sim + 1) \<and>
         (\<exists>b' s'. ProcessNextCycle s = Some (b', s') \<and>
            (GetStallCount s' = GetStallCount s \<or> GetStallCount s' = GetStallCount s + 1))"
proof -
  let ?r' = "SetDataDependent False r"
  let ?N = "CNoopInstruction_staged PS_EX"
  let ?P = "newer @ ?r' # ?N # map bump older"
  have st: "stalls r" using r by (simp add: stalls_def)
  have pl: "pass_list (m_lstInstructionPipeline sim1) = ?P"
    unfolding L using pass_list_stall(1)[OF st reach] .
  have ex: "list_ex stalls (m_lstInstructionPipeline sim1)"
    unfolding L using st by (simp add: list_ex_iff)
  have ne: "?P \<noteq> []" by simp
  then obtain lst where ret: "retirement ?P = Some lst"
    by (simp add: retirement_def)
  have shape: "\<exists>older'. lst = newer @ ?r' # ?N # older' \<and>
                 (older' = map bump older \<or> older' = butlast (map bump older))"
  proof (cases "older = []")
    case True
    with ret show ?thesis by (auto simp: retirement_def)
  next
    case False
    then have "butlast ?P = newer @ ?r' # ?N # butlast (map bump older)"
      by (simp add: butlast_append)
    with ret show ?thesis by (auto simp: retirement_def split: if_splits)
  qed
  have pnc: "ProcessNextCycle sim =
      Some (b0 \<or> list_ex productive (visited (m_lstInstructionPipeline sim1)),
            sim1\<lparr>m_dwStallCtr := m_dwStallCtr sim1 + 1,
                 m_dwCompletedCtr := m_dwCompletedCtr sim1 +
                     of_nat (length (filter completes (visited (m_lstInstructionPipeline sim1)))),
                 m_lstInstructionPipeline := lst\<rparr>)"
    using ret ex by (simp add: ProcessNextCycle_char[OF adm] pl)
  have ctr: "m_dwStallCtr sim1 = m_dwStallCtr sim" using admission_fields[OF adm] by simp
  have first: "\<exists>b sim' older'.
            ProcessNextCycle sim = Some (b, sim') \<and>
            retirement ?P = Some (m_lstInstructionPipeline sim') \<and>
            m_lstInstructionPipeline sim' = newer @ ?r' # ?N # older' \<and>
            (older' = map bump older \<or> older' = butlast (map bump older)) \<and>
            GetState ?r' = PS_ID \<and> IsDataDependent ?r' = False \<and>
            GetState ?N = PS_EX \<and> IsNOOP ?N \<and>
            GetStallCount sim' = GetStallCount sim + 1"
    using pnc ret shape r ctr by (auto simp: GetStallCount_def)
  obtain b' s' where st': "ProcessNextCycle s = Some (b', s')"
    using ProcessNextCycle_total by blast
  from flags_step(3)[OF st'] st' have second: "\<exists>b' s'. ProcessNextCycle s = Some (b', s') \<and>
            (GetStallCount s' = GetStallCount s \<or> GetStallCount s' = GetStallCount s + 1)"
    by (auto simp: GetStallCount_def)
  from first second show ?thesis by blast
qed

theorem stall_in_decode_witness:
  "admission (stall_example\<lparr>m_dwCycle := m_dwCycle stall_example + 1\<rparr>) =
     (True, stall_example\<lparr>m_dwCycle := 4, m_queInstructions := [],
              m_lstInstructionPipeline :=
                [CInstructionData_new 100 False, CInstructionData_staged 99 PS_IF False] @
                CInstructionData_staged 98 PS_ID True # [CInstructionData_staged 97 PS_EX False]\<rparr>) \<and>
   GetState (CInstructionData_staged 98 PS_ID True) = PS_ID \<and>
   IsDataDependent (CInstructionData_staged 98 PS_ID True) \<and>
   list_all (\<lambda>x. \<not> stalls x) [CInstructionData_staged 97 PS_EX False] \<and>
   (\<exists>b sim'. ProcessNextCycle stall_example = Some (b, sim') \<and>
      m_lstInstructionPipeline sim' =
        [CInstructionData_new 100 False, CInstructionData_staged 99 PS_IF False,
         CInstructionData_staged 98 PS_ID False, CNoopInstruction_staged PS_EX,
         CInstructionData_staged 97 PS_WB False] \<and>
      GetStallCount sim' = 1)"
proof -
  let ?sim1 = "stall_example\<lparr>m_dwCycle := 4, m_queInstructions := [],
              m_lstInstructionPipeline :=
                [CInstructionData_new 100 False, CInstructionData_staged 99 PS_IF False] @
                CInstructionData_staged 98 PS_ID True # [CInstructionData_staged 97 PS_EX False]\<rparr>"
  have adm: "admission (stall_example\<lparr>m_dwCycle := m_dwCycle stall_example + 1\<rparr>) = (True, ?sim1)"
    by (simp add: admission_def stall_example_def)
  have L: "m_lstInstructionPipeline ?sim1 =
             [CInstructionData_new 100 False, CInstructionData_staged 99 PS_IF False] @
             CInstructionData_staged 98 PS_ID True # [CInstructionData_staged 97 PS_EX False]"
    by simp
  have r1: "GetState (CInstructionData_staged 98 PS_ID True) = PS_ID"
    and r2: "IsDataDependent (CInstructionData_staged 98 PS_ID True)"
    by (simp_all add: instr_defs)
  have reach: "list_all (\<lambda>x. \<not> stalls x) [CInstructionData_staged 97 PS_EX False]"
    by (simp add: stalls_def instr_defs)
  have ret: "retirement
       ([CInstructionData_new 100 False, CInstructionData_staged 99 PS_IF False] @
        SetDataDependent False (CInstructionData_staged 98 PS_ID True) #
        CNoopInstruction_staged PS_EX # map bump [CInstructionData_staged 97 PS_EX False]) =
     Some [CInstructionData_new 100 False, CInstructionData_staged 99 PS_IF False,
         CInstructionData_staged 98 PS_ID False, CNoopInstruction_staged PS_EX,
         CInstructionData_staged 97 PS_WB False]"
    by (simp add: retirement_def bump_def instr_defs)
  have s0: "GetStallCount stall_example = 0"
    by (simp add: GetStallCount_def stall_example_def)
  show ?thesis
    using stall_in_decode [OF adm L r1 r2 reach, where s = stall_example] adm r1 r2 reach ret s0
    by auto
qed

text \<open>
  Claim C2, as stated: the call returns true if and only if a record that is not
  a bubble changed stage, the step from Write Back to Completed included. After
  four cycles on the single instruction \<^verbatim>\<open>a\<close> the record is in Write Back; the
  fifth call moves it to Completed, counts it as completed and retires it, and
  returns false.
\<close>

theorem write_back_returns_false:
  "run_cycles 4 (queue_all [CInstructionData_new 97 False] CPipelineSim_new) =
     Some ([True, True, True, True], write_back_example) \<and>
   last (m_lstInstructionPipeline write_back_example) = CInstructionData_staged 97 PS_WB False \<and>
   IsNOOP (CInstructionData_staged 97 PS_WB False) = False \<and>
   ProcessNextCycle write_back_example =
     Some (False,
       \<lparr>m_dwCycle = 5, m_dwStallCtr = 0, m_dwCompletedCtr = 1, m_dwMaxPipelineDepth = 4,
        m_lstInstructionPipeline =
          [CNoopInstruction_staged PS_IF, CNoopInstruction_staged PS_ID,
           CNoopInstruction_staged PS_EX, CNoopInstruction_staged PS_WB],
        m_queInstructions = []\<rparr>)"
  by code_simp

text \<open>
  Claim C2, amended: the call returns true whenever it has moved a record from
  the queue to the list (which it does when the list holds at most
  \<^verbatim>\<open>m_dwMaxPipelineDepth\<close> records and the queue is not empty) or the pass has
  advanced a record that is not a bubble from \<^verbatim>\<open>PS_INVALID\<close>, Fetch, Decode or
  Execute to the next stage; in a call in which no record is stalled every
  record of the list is advanced one stage (and the oldest retired when it
  completes), and the call returns true in these cases only. The step from Write
  Back to Completed does not make the call return true.
\<close>

theorem return_value:
  assumes adm: "admission (sim\<lparr>m_dwCycle := m_dwCycle sim + 1\<rparr>) = (b0, sim1)"
  shows "\<exists>b sim'. ProcessNextCycle sim = Some (b, sim') \<and>
           b0 = (length (m_lstInstructionPipeline sim) \<le> unat (m_dwMaxPipelineDepth sim) \<and>
                 m_queInstructions sim \<noteq> []) \<and>
           (b0 \<or> list_ex productive (visited (m_lstInstructionPipeline sim1)) \<longrightarrow> b) \<and>
           (list_ex stalls (m_lstInstructionPipeline sim1) = False \<longrightarrow>
              retirement (map bump (m_lstInstructionPipeline sim1)) =
                Some (m_lstInstructionPipeline sim') \<and>
              b = (b0 \<or> list_ex productive (m_lstInstructionPipeline sim1)))"
proof -
  let ?L = "m_lstInstructionPipeline sim1"
  obtain b sim' where st: "ProcessNextCycle sim = Some (b, sim')"
    using ProcessNextCycle_total by blast
  then have b: "b = (b0 \<or> list_ex productive (visited ?L))"
    and l: "retirement (pass_list ?L) = Some (m_lstInstructionPipeline sim')"
    by (auto simp: ProcessNextCycle_char[OF adm] split: option.splits)
  have b0: "b0 = (length (m_lstInstructionPipeline sim) \<le> unat (m_dwMaxPipelineDepth sim) \<and>
                 m_queInstructions sim \<noteq> [])"
    using adm by (auto simp: admission_def split: if_splits list.splits)
  have plain: "list_ex productive (visited ?L) = list_ex productive ?L \<and>
               retirement (map bump ?L) = Some (m_lstInstructionPipeline sim')"
    if "list_ex stalls ?L = False"
    using pass_list_plain[OF that] l by (simp add: list_ex_iff)
  from st b b0 plain show ?thesis by auto
qed

theorem return_value_witness:
  "admission (stall_example\<lparr>m_dwCycle := m_dwCycle stall_example + 1\<rparr>) =
     (True, stall_example\<lparr>m_dwCycle := 4, m_queInstructions := [],
              m_lstInstructionPipeline :=
                CInstructionData_new 100 False # m_lstInstructionPipeline stall_example\<rparr>) \<and>
   (\<exists>b sim'. ProcessNextCycle stall_example = Some (b, sim') \<and> b) \<and>
   admission (write_back_example\<lparr>m_dwCycle := m_dwCycle write_back_example + 1\<rparr>) =
     (False, write_back_example\<lparr>m_dwCycle := 5,
              m_lstInstructionPipeline :=
                CNoopInstruction # m_lstInstructionPipeline write_back_example\<rparr>) \<and>
   list_ex stalls (CNoopInstruction # m_lstInstructionPipeline write_back_example) = False \<and>
   list_ex productive (CNoopInstruction # m_lstInstructionPipeline write_back_example) = False \<and>
   (\<exists>b sim'. ProcessNextCycle write_back_example = Some (b, sim') \<and> b = False)"
proof -
  have adm1: "admission (stall_example\<lparr>m_dwCycle := m_dwCycle stall_example + 1\<rparr>) =
     (True, stall_example\<lparr>m_dwCycle := 4, m_queInstructions := [],
              m_lstInstructionPipeline :=
                CInstructionData_new 100 False # m_lstInstructionPipeline stall_example\<rparr>)"
    by (simp add: admission_def stall_example_def)
  have adm2: "admission (write_back_example\<lparr>m_dwCycle := m_dwCycle write_back_example + 1\<rparr>) =
     (False, write_back_example\<lparr>m_dwCycle := 5,
              m_lstInstructionPipeline :=
                CNoopInstruction # m_lstInstructionPipeline write_back_example\<rparr>)"
    by (simp add: admission_def write_back_example_def)
  have ns: "list_ex stalls (CNoopInstruction # m_lstInstructionPipeline write_back_example) = False"
    by (simp add: write_back_example_def stalls_def instr_defs)
  have np: "list_ex productive (CNoopInstruction # m_lstInstructionPipeline write_back_example) = False"
    by (simp add: write_back_example_def productive_def instr_defs)
  show ?thesis
    using return_value [OF adm1] return_value [OF adm2] adm1 adm2 ns np by auto
qed

text \<open>
  Claim C9: whatever records have been queued in a new simulator, the calls of
  \<^verbatim>\<open>ProcessNextCycle\<close> come to one that returns false, so the driver's loop
  ends; the stall counter is then at most the number of flagged records that
  were queued, and the queue is a final part of what was queued. In any state,
  one call leaves the queue as it is or removes its front, and the stall counter
  together with the flags still pending does not grow.
\<close>

theorem cycles_terminate:
  "(\<exists>n t. run_cycles (Suc n) (queue_all instrs CPipelineSim_new) =
            Some (replicate n True @ [False], t) \<and>
          cycle_loop (queue_all instrs CPipelineSim_new) = Some t \<and>
          unat (GetStallCount t) \<le> length (filter IsDataDependent instrs) \<and>
          (\<exists>m. m_queInstructions t = drop m instrs)) \<and>
   (\<exists>b sim'. ProcessNextCycle sim = Some (b, sim') \<and>
          (m_queInstructions sim' = m_queInstructions sim \<or>
           m_queInstructions sim' = tl (m_queInstructions sim)) \<and>
          unat (m_dwStallCtr sim') + pending_flags sim' \<le>
            unat (m_dwStallCtr sim) + pending_flags sim)"
proof -
  let ?s = "queue_all instrs CPipelineSim_new"
  from run_terminates[of ?s] obtain n t where
    run: "run_cycles (Suc n) ?s = Some (replicate n True @ [False], t)"
    and loop: "cycle_loop ?s = Some t"
    and fl: "unat (m_dwStallCtr t) + pending_flags t \<le> unat (m_dwStallCtr ?s) + pending_flags ?s"
    and dq: "\<exists>m. m_queInstructions t = drop m (m_queInstructions ?s)"
    by blast
  have "m_dwStallCtr ?s = 0" by (simp add: queue_all_eq CPipelineSim_new_def)
  then have "unat (GetStallCount t) \<le> length (filter IsDataDependent instrs)"
    using fl by (simp add: GetStallCount_def pending_queued)
  moreover have "\<exists>m. m_queInstructions t = drop m instrs"
    using dq by (simp add: queue_all_eq CPipelineSim_new_def)
  moreover obtain b sim' where st: "ProcessNextCycle sim = Some (b, sim')"
    using ProcessNextCycle_total by blast
  ultimately show ?thesis using run loop flags_step(1,2)[OF st] st by blast
qed

theorem cycles_terminate_witness:
  "\<exists>n t. run_cycles (Suc n)
            (queue_all [CInstructionData_new 98 True, CInstructionData_new 99 True]
               CPipelineSim_new) = Some (replicate n True @ [False], t) \<and>
          cycle_loop
            (queue_all [CInstructionData_new 98 True, CInstructionData_new 99 True]
               CPipelineSim_new) = Some t"
  using cycles_terminate [of "[CInstructionData_new 98 True, CInstructionData_new 99 True]"]
  by blast

text \<open>
  Claim C4: when \<open>k \<ge> 1\<close> fresh instructions, none of them flagged, are queued
  in a new simulator, \<^verbatim>\<open>ProcessNextCycle\<close> returns true on the first \<open>k + 3\<close>
  calls and false on call \<open>k + 4\<close>, and the stall counter is 0 after any number
  of calls.
\<close>

theorem no_dependencies_k_plus_3:
  assumes "instrs \<noteq> []" and "list_all fresh_instruction instrs"
      and "list_all (\<lambda>r. IsDataDependent r = False) instrs"
  shows "(\<exists>t. run_cycles (length instrs + 4) (queue_all instrs CPipelineSim_new) =
               Some (replicate (length instrs + 3) True @ [False], t)) \<and>
         (\<forall>n. \<exists>bs t. run_cycles n (queue_all instrs CPipelineSim_new) = Some (bs, t) \<and>
               GetStallCount t = 0)"
proof -
  let ?s = "queue_all instrs CPipelineSim_new"
  have nf: "filter IsDataDependent instrs = []"
    using assms(3) by (simp add: list_all_iff filter_empty_conv)
  have hd: "IsDataDependent (hd instrs) = False"
    using assms(1,3) by (cases instrs) simp_all
  have inv: "in_order ?s" using assms(2) hd by (rule in_order_queued)
  have rem: "remaining_cycles ?s = length instrs + 3"
    using remaining_queued[OF assms(1)] nf by simp
  have pf: "pending_flags ?s = 0" using nf by (simp add: pending_queued)
  from in_order_run[OF inv rem] have 1: "\<exists>t. run_cycles (length instrs + 4) ?s =
               Some (replicate (length instrs + 3) True @ [False], t)"
    by (auto simp: numeral_eq_Suc)
  have s0: "m_dwStallCtr ?s = 0" by (simp add: queue_all_eq CPipelineSim_new_def)
  have 2: "\<exists>bs t. run_cycles n ?s = Some (bs, t) \<and> GetStallCount t = 0" for n
  proof -
    obtain bs t where run: "run_cycles n ?s = Some (bs, t)"
      using run_cycles_total by blast
    from in_order_run_stalls[OF inv run] pf s0 have "GetStallCount t = 0"
      by (auto simp: GetStallCount_def)
    with run show ?thesis by blast
  qed
  from 1 2 show ?thesis by blast
qed

theorem no_dependencies_k_plus_3_witness:
  "[CInstructionData_new 97 False, CInstructionData_new 98 False] \<noteq> [] \<and>
   list_all fresh_instruction [CInstructionData_new 97 False, CInstructionData_new 98 False] \<and>
   list_all (\<lambda>r. IsDataDependent r = False)
     [CInstructionData_new 97 False, CInstructionData_new 98 False] \<and>
   (\<exists>t. run_cycles 6
          (queue_all [CInstructionData_new 97 False, CInstructionData_new 98 False]
             CPipelineSim_new) =
        Some (replicate 5 True @ [False], t))"
proof -
  have f: "list_all fresh_instruction [CInstructionData_new 97 False, CInstructionData_new 98 False]"
    by (simp add: fresh_instruction_def instr_defs NOOP_INSTRUCTION_def)
  have d: "list_all (\<lambda>r. IsDataDependent r = False)
     [CInstructionData_new 97 False, CInstructionData_new 98 False]"
    by (simp add: instr_defs)
  show ?thesis
    using no_dependencies_k_plus_3
      [of "[CInstructionData_new 97 False, CInstructionData_new 98 False]", OF _ f d] f d
    by simp
qed

text \<open>
  Claim C5: when \<open>k \<ge> 1\<close> fresh instructions are queued in a new simulator, the
  first not flagged and every other one flagged, \<^verbatim>\<open>ProcessNextCycle\<close> returns true
  on the first \<open>2 * k + 2\<close> calls and false on the next, where the driver's loop
  ends; the stall counter, a \<^verbatim>\<open>DWORD\<close>, then holds \<open>k - 1\<close> (as a 32-bit
  number, so exactly \<open>k - 1\<close> when that is below \<open>2 ^ 32\<close>).
\<close>

theorem all_dependent_2k_plus_2:
  assumes "list_all fresh_instruction (first # rest)"
      and "IsDataDependent first = False" and "list_all IsDataDependent rest"
  shows "\<exists>t. run_cycles (2 * length (first # rest) + 3) (queue_all (first # rest) CPipelineSim_new) =
               Some (replicate (2 * length (first # rest) + 2) True @ [False], t) \<and>
             cycle_loop (queue_all (first # rest) CPipelineSim_new) = Some t \<and>
             GetStallCount t = of_nat (length (first # rest) - 1) \<and>
             (length (first # rest) \<le> 2 ^ 32 \<longrightarrow>
                unat (GetStallCount t) = length (first # rest) - 1)"
proof -
  let ?s = "queue_all (first # rest) CPipelineSim_new"
  have fl: "filter IsDataDependent (first # rest) = rest"
    using assms(2,3) by (simp add: list_all_iff)
  have inv: "in_order ?s" using assms(1,2) by (intro in_order_queued) simp_all
  have rem: "remaining_cycles ?s = 2 * length (first # rest) + 2"
    using remaining_queued[of "first # rest"] fl by simp
  have pf: "pending_flags ?s = length rest" using fl by (simp add: pending_queued)
  have s0: "m_dwStallCtr ?s = 0" by (simp add: queue_all_eq CPipelineSim_new_def)
  from in_order_run[OF inv rem] obtain t where
    run: "run_cycles (Suc (2 * length (first # rest) + 2)) ?s =
            Some (replicate (2 * length (first # rest) + 2) True @ [False], t)"
    and loop: "cycle_loop ?s = Some t"
    and ctr: "m_dwStallCtr t = m_dwStallCtr ?s + of_nat (pending_flags ?s)"
    by blast
  have ctr': "GetStallCount t = of_nat (length rest)"
    using ctr pf s0 by (simp add: GetStallCount_def)
  have exact: "unat (GetStallCount t) = length rest" if "length rest < 2 ^ 32"
    using that unfolding ctr' by (simp add: unat_of_nat)
  have eq: "2 * length (first # rest) + 3 = Suc (2 * length (first # rest) + 2)"
    by simp
  have run': "run_cycles (2 * length (first # rest) + 3) ?s =
            Some (replicate (2 * length (first # rest) + 2) True @ [False], t)"
    unfolding eq by (rule run)
  have "GetStallCount t = of_nat (length (first # rest) - 1)" using ctr' by simp
  moreover have "length (first # rest) \<le> 2 ^ 32 \<longrightarrow>
                unat (GetStallCount t) = length (first # rest) - 1"
    using exact by simp
  ultimately show ?thesis using run' loop by blast
qed

theorem all_dependent_2k_plus_2_witness:
  "list_all fresh_instruction
     [CInstructionData_new 97 False, CInstructionData_new 98 True, CInstructionData_new 99 True] \<and>
   IsDataDependent (CInstructionData_new 97 False) = False \<and>
   list_all IsDataDependent [CInstructionData_new 98 True, CInstructionData_new 99 True] \<and>
   (\<exists>t. run_cycles 9
          (queue_all [CInstructionData_new 97 False, CInstructionData_new 98 True,
                      CInstructionData_new 99 True] CPipelineSim_new) =
          Some (replicate 8 True @ [False], t) \<and>
        GetStallCount t = 2 \<and> unat (GetStallCount t) = 2)"
proof -
  have f: "list_all fresh_instruction
     (CInstructionData_new 97 False # [CInstructionData_new 98 True, CInstructionData_new 99 True])"
    by (simp add: fresh_instruction_def instr_defs NOOP_INSTRUCTION_def)
  have n: "IsDataDependent (CInstructionData_new 97 False) = False"
    by (simp add: instr_defs)
  have d: "list_all IsDataDependent [CInstructionData_new 98 True, CInstructionData_new 99 True]"
    by (simp add: instr_defs)
  show ?thesis
    using all_dependent_2k_plus_2 [OF f n d] f n d by auto
qed

text \<open>
  The two counts agree on every well-formed graph.
\<close>

lemma well_formed_stalls_agree:
  assumes "well_formed dag"
  shows "\<exists>t. ExecutePipelineSimulation CPipelineSim_new dag = Some (False, t) \<and>
             uint (GetStallCount t) = CalculateNumberOfStallsRequired dag"
proof -
  let ?is = "dag_instructions dag"
  let ?s = "queue_all ?is CPipelineSim_new"
  have inv: "in_order ?s"
    using dag_instructions_fresh[OF assms] first_valid_not_dependent[OF assms]
    by (rule in_order_queued)
  from in_order_run[OF inv refl] obtain t where loop: "cycle_loop ?s = Some t"
    and ctr: "m_dwStallCtr t = m_dwStallCtr ?s + of_nat (pending_flags ?s)"
    by blast
  have s0: "m_dwStallCtr ?s = 0" by (simp add: queue_all_eq CPipelineSim_new_def)
  have "length (filter IsDataDependent ?is) \<le> length ?is" by simp
  also have "\<dots> \<le> 25" using valid_nodes_le_25[OF assms] by (simp add: dag_instructions_def)
  finally have small: "length (filter IsDataDependent ?is) < 2 ^ 32" by simp
  have "GetStallCount t = of_nat (length (filter IsDataDependent ?is))"
    using ctr s0 by (simp add: GetStallCount_def pending_queued)
  then have "unat (GetStallCount t) = length (filter IsDataDependent ?is)"
    using small by (simp add: unat_of_nat)
  then have "uint (GetStallCount t) = int (length (filter IsDataDependent ?is))"
    by (metis uint_nat)
  then show ?thesis
    using loop
    by (simp add: ExecutePipelineSimulation_def queue_instructions_eq stalls_required_eq)
qed


text \<open>
  Claim C3: for a well-formed graph, the driver's simulation on a new simulator
  ends, and the stall counter it leaves equals the number that
  \<^verbatim>\<open>CalculateNumberOfStallsRequired\<close> computes from the graph. In particular
  this holds of the graph that \<^verbatim>\<open>LoadData\<close> builds in the driver's graph of 25
  slots from any tokens and dependency pairs, provided every pair names as the
  instruction depended on one that the first line has made a node.
\<close>

theorem static_stalls_equal_simulated:
  "(well_formed dag \<longrightarrow>
      (\<exists>t. ExecutePipelineSimulation CPipelineSim_new dag = Some (False, t) \<and>
           uint (GetStallCount t) = CalculateNumberOfStallsRequired dag)) \<and>
   ((\<forall>(idSrcNode, idDestNode) \<in> set pairs.
        HasNode idDestNode (nodes_loaded tokens (CDependencyGraph_sized MAX_INSTRUCTIONS))) \<longrightarrow>
      (\<exists>t. ExecutePipelineSimulation CPipelineSim_new
              (LoadData_calls tokens pairs (CDependencyGraph_sized MAX_INSTRUCTIONS)) =
              Some (False, t) \<and>
           uint (GetStallCount t) =
             CalculateNumberOfStallsRequired
               (LoadData_calls tokens pairs (CDependencyGraph_sized MAX_INSTRUCTIONS))))"
proof -
  have "well_formed (LoadData_calls tokens pairs (CDependencyGraph_sized MAX_INSTRUCTIONS))"
    if "\<forall>(idSrcNode, idDestNode) \<in> set pairs.
        HasNode idDestNode (nodes_loaded tokens (CDependencyGraph_sized MAX_INSTRUCTIONS))"
    using well_formed_new that by (rule LoadData_well_formed)
  then show ?thesis using well_formed_stalls_agree by blast
qed

theorem static_stalls_equal_simulated_witness:
  "well_formed textbook_example \<and>
   HasNode 97
     (nodes_loaded [97, 98, 99, 100, 101, 102] (CDependencyGraph_sized MAX_INSTRUCTIONS)) \<and>
   HasNode 100
     (nodes_loaded [97, 98, 99, 100, 101, 102] (CDependencyGraph_sized MAX_INSTRUCTIONS)) \<and>
   CalculateNumberOfStallsRequired textbook_example = 2 \<and>
   (\<exists>t. ExecutePipelineSimulation CPipelineSim_new textbook_example = Some (False, t) \<and>
        uint (GetStallCount t) = 2) \<and>
   (\<exists>t. ExecutePipelineSimulation CPipelineSim_new
          (LoadData_calls [97, 98, 99, 100, 101, 102] [(98, 97), (101, 100)]
             (CDependencyGraph_sized MAX_INSTRUCTIONS)) = Some (False, t) \<and>
        uint (GetStallCount t) = 2)"
proof -
  have wf: "well_formed textbook_example" by code_simp
  have h1: "HasNode 97
     (nodes_loaded [97, 98, 99, 100, 101, 102] (CDependencyGraph_sized MAX_INSTRUCTIONS))"
    and h2: "HasNode 100
     (nodes_loaded [97, 98, 99, 100, 101, 102] (CDependencyGraph_sized MAX_INSTRUCTIONS))"
    by code_simp+
  have inp: "\<forall>(idSrcNode, idDestNode) \<in> set [(98, 97), (101, 100)].
        HasNode idDestNode
          (nodes_loaded [97, 98, 99, 100, 101, 102] (CDependencyGraph_sized MAX_INSTRUCTIONS))"
    using h1 h2 by simp
  have n: "CalculateNumberOfStallsRequired textbook_example = 2" by code_simp
  have n': "CalculateNumberOfStallsRequired
      (LoadData_calls [97, 98, 99, 100, 101, 102] [(98, 97), (101, 100)]
         (CDependencyGraph_sized MAX_INSTRUCTIONS)) = 2"
    using n by (simp add: textbook_example_def)
  show ?thesis
    using static_stalls_equal_simulated
      [of textbook_example "[(98, 97), (101, 100)]" "[97, 98, 99, 100, 101, 102]"]
      wf inp h1 h2 n n'
    by auto
qed

text \<open>
  The hypothesis is needed. With the instructions \<^verbatim>\<open>b c\<close> and the pairs \<^verbatim>\<open>b a\<close>,
  \<^verbatim>\<open>c b\<close> the graph is not well formed (\<^verbatim>\<open>a\<close> is no node of it); the first
  instruction queued is flagged, the call that stalls it returns false, and the
  driver stops after one stall where two were computed.
\<close>

lemma dangling_dependency_example:
  "well_formed dangling_example = False \<and>
   CalculateNumberOfStallsRequired dangling_example = 2 \<and>
   ExecutePipelineSimulation CPipelineSim_new dangling_example =
     Some (False,
       \<lparr>m_dwCycle = 3, m_dwStallCtr = 1, m_dwCompletedCtr = 0, m_dwMaxPipelineDepth = 4,
        m_lstInstructionPipeline =
          [CNoopInstruction_staged PS_INVALID, CInstructionData_staged 99 PS_IF True,
           CInstructionData_staged 98 PS_ID False, CNoopInstruction_staged PS_EX],
        m_queInstructions = []\<rparr>)"
  by code_simp

end
